theory Spec2Isabelle
  imports Main "HOL-Library.Word"
begin

section \<open>JavaScript strings\<close>

text \<open>
  A JavaScript string is a sequence of UTF-16 code units. The chat panel
  (\<^verbatim>\<open>src/components/ChatInterface.tsx\<close>) only ever inspects strings through
  \<^verbatim>\<open>indexOf\<close>, \<^verbatim>\<open>slice\<close>, \<^verbatim>\<open>substring\<close>, \<^verbatim>\<open>startsWith\<close>, \<^verbatim>\<open>endsWith\<close>, \<^verbatim>\<open>trim\<close>,
  \<^verbatim>\<open>length\<close> and concatenation, all of which work on code units.
\<close>

type_synonym code_unit = "16 word"
type_synonym jstring = "code_unit list"

definition js :: "string \<Rightarrow> jstring" where
  \<comment> \<open>an ASCII literal of the source as a JavaScript string\<close>
  "js s = map of_char s"

definition LF :: code_unit where
  "LF = 0x0A"

definition CR :: code_unit where
  "CR = 0x0D"

fun indexOf :: "code_unit \<Rightarrow> jstring \<Rightarrow> nat option" where
  \<comment> \<open>\<^verbatim>\<open>s.indexOf(c)\<close> for a one-unit needle; \<open>None\<close> stands for \<^verbatim>\<open>-1\<close>\<close>
  "indexOf c [] = None"
| "indexOf c (x # xs) = (if x = c then Some 0 else map_option Suc (indexOf c xs))"

definition startsWith :: "jstring \<Rightarrow> jstring \<Rightarrow> bool" where
  "startsWith s p = (take (length p) s = p)"

definition endsWith :: "jstring \<Rightarrow> jstring \<Rightarrow> bool" where
  "endsWith s p = (length p \<le> length s \<and> drop (length s - length p) s = p)"

definition white_space :: "code_unit \<Rightarrow> bool" where
  \<comment> \<open>ECMAScript WhiteSpace and LineTerminator code points, the ones \<^verbatim>\<open>trim\<close> removes\<close>
  "white_space c = (c \<in> {0x09, 0x0A, 0x0B, 0x0C, 0x0D, 0x20, 0xA0, 0x1680,
      0x2000, 0x2001, 0x2002, 0x2003, 0x2004, 0x2005, 0x2006, 0x2007, 0x2008, 0x2009, 0x200A,
      0x2028, 0x2029, 0x202F, 0x205F, 0x3000, 0xFEFF})"

definition trim :: "jstring \<Rightarrow> jstring" where
  "trim s = rev (dropWhile white_space (rev (dropWhile white_space s)))"

section \<open>Parsed frames\<close>

text \<open>
  The values \<^verbatim>\<open>JSON.parse\<close> can return. A number is kept as the text JavaScript prints
  for it (its \<^verbatim>\<open>ToString\<close>): the panel only tests a number for truthiness and appends it
  to a string, and both zeros print as \<^verbatim>\<open>0\<close>. An object is the list of its own
  properties. \<^verbatim>\<open>JSON.parse\<close> itself belongs to the JavaScript runtime, so the functions
  below take it as a parameter: \<open>None\<close> stands for the \<^verbatim>\<open>SyntaxError\<close> it throws.
\<close>

datatype json =
    JNull
  | JBool bool
  | JNum jstring
  | JStr jstring
  | JArr "json list"
  | JObj "(jstring \<times> json) list"

datatype jsval = Undefined | Val json

type_synonym json_parser = "jstring \<Rightarrow> json option"

datatype key = Choices | Index0 | Delta | Content

fun key_name :: "key \<Rightarrow> jstring" where
  "key_name Choices = js ''choices''"
| "key_name Index0 = js ''0''"
| "key_name Delta = js ''delta''"
| "key_name Content = js ''content''"

fun get_prop :: "json \<Rightarrow> key \<Rightarrow> jsval option" where
  \<comment> \<open>\<^verbatim>\<open>v.k\<close> and \<^verbatim>\<open>v[0]\<close> for the four keys the panel reads; \<open>None\<close> is the \<^verbatim>\<open>TypeError\<close>
      of reading a property of \<^verbatim>\<open>null\<close>\<close>
  "get_prop JNull k = None"
| "get_prop (JObj kvs) k =
     Some (case map_of kvs (key_name k) of None \<Rightarrow> Undefined | Some v \<Rightarrow> Val v)"
| "get_prop (JArr xs) k =
     Some (case k of Index0 \<Rightarrow> (case xs of [] \<Rightarrow> Undefined | x # _ \<Rightarrow> Val x) | _ \<Rightarrow> Undefined)"
| "get_prop (JStr s) k =
     Some (case k of Index0 \<Rightarrow> (case s of [] \<Rightarrow> Undefined | c # _ \<Rightarrow> Val (JStr [c])) | _ \<Rightarrow> Undefined)"
| "get_prop (JBool b) k = Some Undefined"
| "get_prop (JNum n) k = Some Undefined"

fun opt_get :: "jsval \<Rightarrow> key \<Rightarrow> jsval option" where
  \<comment> \<open>optional chaining \<^verbatim>\<open>v?.k\<close>: \<^verbatim>\<open>undefined\<close> when \<open>v\<close> is \<^verbatim>\<open>undefined\<close> or \<^verbatim>\<open>null\<close>\<close>
  "opt_get Undefined k = Some Undefined"
| "opt_get (Val JNull) k = Some Undefined"
| "opt_get (Val j) k = get_prop j k"

definition delta_content :: "json \<Rightarrow> jsval option" where
  \<comment> \<open>\<^verbatim>\<open>parsed.choices?.[0]?.delta?.content\<close>\<close>
  "delta_content parsed =
     Option.bind (get_prop parsed Choices) (\<lambda>choices.
     Option.bind (opt_get choices Index0) (\<lambda>choice.
     Option.bind (opt_get choice Delta) (\<lambda>delta.
       opt_get delta Content)))"

fun truthy :: "jsval \<Rightarrow> bool" where
  "truthy Undefined = False"
| "truthy (Val JNull) = False"
| "truthy (Val (JBool b)) = b"
| "truthy (Val (JNum n)) = (n \<noteq> js ''0'')"
| "truthy (Val (JStr s)) = (s \<noteq> [])"
| "truthy (Val (JArr xs)) = True"
| "truthy (Val (JObj kvs)) = True"

fun to_string :: "json \<Rightarrow> jstring option"
  and join_elems :: "json list \<Rightarrow> jstring option" where
  \<comment> \<open>the string \<^verbatim>\<open>s += v\<close> appends; \<open>None\<close> is the \<^verbatim>\<open>TypeError\<close> of an object whose own
      \<^verbatim>\<open>toString\<close> property (never callable in parsed JSON) hides the inherited method\<close>
  "to_string JNull = Some (js ''null'')"
| "to_string (JBool b) = Some (if b then js ''true'' else js ''false'')"
| "to_string (JNum n) = Some n"
| "to_string (JStr s) = Some s"
| "to_string (JArr xs) = join_elems xs"
| "to_string (JObj kvs) =
     (if map_of kvs (js ''toString'') = None then Some (js ''[object Object]'') else None)"
| "join_elems [] = Some []"
| "join_elems (x # xs) =
     (case (if x = JNull then Some [] else to_string x) of
        None \<Rightarrow> None
      | Some s \<Rightarrow>
          (if xs = [] then Some s
           else (case join_elems xs of None \<Rightarrow> None | Some t \<Rightarrow> Some (s @ js '','' @ t))))"

section \<open>The streaming loop of \<^verbatim>\<open>handleSend\<close>\<close>

text \<open>
  The local variables of lines 141 to 174. \<open>snapshots\<close> records the assistant text of every
  \<^verbatim>\<open>setMessages\<close> call of line 167, in order: what the panel displayed during the stream.
\<close>

record stream_state =
  assistantMessage :: jstring
  textBuffer :: jstring
  snapshots :: "jstring list"

definition try_frame :: "json_parser \<Rightarrow> jstring \<Rightarrow> stream_state \<Rightarrow> stream_state option" where
  \<comment> \<open>the \<^verbatim>\<open>try\<close> block of lines 162 to 168; \<open>None\<close> when it throws into the \<^verbatim>\<open>catch\<close>\<close>
  "try_frame JSON_parse jsonStr st =
     (case JSON_parse jsonStr of
        None \<Rightarrow> None
      | Some parsed \<Rightarrow>
          (case delta_content parsed of
             None \<Rightarrow> None
           | Some content \<Rightarrow>
               (if truthy content then
                  (case content of
                     Undefined \<Rightarrow> Some st
                   | Val c \<Rightarrow>
                       (case to_string c of
                          None \<Rightarrow> None
                        | Some s \<Rightarrow>
                            Some (st\<lparr>assistantMessage := assistantMessage st @ s,
                                     snapshots := snapshots st @ [assistantMessage st @ s]\<rparr>)))
                else Some st)))"

definition strip_cr :: "jstring \<Rightarrow> jstring" where
  \<comment> \<open>line 155: \<^verbatim>\<open>if (line.endsWith("\r")) line = line.slice(0, -1)\<close>\<close>
  "strip_cr line = (if endsWith line [CR] then butlast line else line)"

definition next_line :: "jstring \<Rightarrow> (jstring \<times> jstring) option" where
  \<comment> \<open>lines 151 to 155: the next complete line of the buffer, and the buffer after it\<close>
  "next_line buf =
     (case indexOf LF buf of
        None \<Rightarrow> None
      | Some newlineIndex \<Rightarrow> Some (strip_cr (take newlineIndex buf), drop (newlineIndex + 1) buf))"

datatype step = Continue stream_state | Break stream_state

definition handle_line :: "json_parser \<Rightarrow> jstring \<Rightarrow> stream_state \<Rightarrow> step" where
  \<comment> \<open>lines 156 to 172, the rest of the loop body: \<open>Continue\<close> goes to the next iteration
      (a \<^verbatim>\<open>continue\<close>, or the end of the body), \<open>Break\<close> leaves the inner loop\<close>
  "handle_line JSON_parse line st =
     (if startsWith line (js '':'') \<or> trim line = [] then Continue st
      else if \<not> startsWith line (js ''data: '') then Continue st
      else
        (let jsonStr = trim (drop 6 line)
         in if jsonStr = js ''[DONE]'' then Break st
            else
              (case try_frame JSON_parse jsonStr st of
                 Some st' \<Rightarrow> Continue st'
               | None \<Rightarrow> Break (st\<lparr>textBuffer := line @ [LF] @ textBuffer st\<rparr>))))"

partial_function (option) process_lines :: "json_parser \<Rightarrow> stream_state \<Rightarrow> stream_state option" where
  \<comment> \<open>the inner \<^verbatim>\<open>while\<close> of lines 151 to 173; \<open>None\<close> would be a loop that never exits\<close>
  "process_lines JSON_parse st =
     (case next_line (textBuffer st) of
        None \<Rightarrow> Some st
      | Some (line, rest) \<Rightarrow>
          (case handle_line JSON_parse line (st\<lparr>textBuffer := rest\<rparr>) of
             Continue st' \<Rightarrow> process_lines JSON_parse st'
           | Break st' \<Rightarrow> Some st'))"

declare process_lines.simps [code]

fun read_loop :: "json_parser \<Rightarrow> jstring list \<Rightarrow> stream_state \<Rightarrow> stream_state option" where
  \<comment> \<open>the outer \<^verbatim>\<open>while (true)\<close> of lines 144 to 174 over the decoded chunks the reader
      delivers before it reports \<^verbatim>\<open>done\<close>\<close>
  "read_loop JSON_parse [] st = Some st"
| "read_loop JSON_parse (chunk # chunks) st =
     (case process_lines JSON_parse (st\<lparr>textBuffer := textBuffer st @ chunk\<rparr>) of
        None \<Rightarrow> None
      | Some st' \<Rightarrow> read_loop JSON_parse chunks st')"

definition stream_start :: stream_state where
  \<comment> \<open>lines 141 and 142\<close>
  "stream_start = \<lparr>assistantMessage = [], textBuffer = [], snapshots = []\<rparr>"

subsection \<open>The lines the loop cuts\<close>

text \<open>
  The same two loops with one more variable, which the panel does not have: the list of the
  lines cut from the buffer (each as it stands after line 155), in the order the loop cuts
  them. Every exit of the loops is kept; dropping the list gives \<open>process_lines\<close> and
  \<open>read_loop\<close> back (lemmas \<open>traced_is_real_inner\<close> and \<open>traced_is_real\<close>).
\<close>

partial_function (option) process_lines_traced ::
    "json_parser \<Rightarrow> jstring list \<times> stream_state \<Rightarrow> (jstring list \<times> stream_state) option" where
  \<comment> \<open>the inner \<^verbatim>\<open>while\<close> again, with the list of the lines it has cut so far\<close>
  "process_lines_traced JSON_parse ts =
     (case next_line (textBuffer (snd ts)) of
        None \<Rightarrow> Some ts
      | Some (line, rest) \<Rightarrow>
          (case handle_line JSON_parse line ((snd ts)\<lparr>textBuffer := rest\<rparr>) of
             Continue st' \<Rightarrow> process_lines_traced JSON_parse (fst ts @ [line], st')
           | Break st' \<Rightarrow> Some (fst ts @ [line], st')))"

declare process_lines_traced.simps [code]

fun read_loop_traced ::
    "json_parser \<Rightarrow> jstring list \<Rightarrow> jstring list \<times> stream_state \<Rightarrow> (jstring list \<times> stream_state) option" where
  \<comment> \<open>the outer \<^verbatim>\<open>while (true)\<close> again, handing the list on\<close>
  "read_loop_traced JSON_parse [] ts = Some ts"
| "read_loop_traced JSON_parse (chunk # chunks) ts =
     (case process_lines_traced JSON_parse (fst ts, (snd ts)\<lparr>textBuffer := textBuffer (snd ts) @ chunk\<rparr>) of
        None \<Rightarrow> None
      | Some ts' \<Rightarrow> read_loop_traced JSON_parse chunks ts')"

section \<open>The panel and its collaborators\<close>

datatype role = User | Assistant

record message =
  role :: role
  content :: jstring

record conversation_row =
  user_id :: jstring
  title :: jstring

record message_row =
  conversation_id :: jstring
  row_role :: role
  row_content :: jstring

datatype log_entry =
    ErrorCreatingConversation jstring
  | ErrorSavingMessage jstring
  | ChatError jstring

text \<open>
  The body of a response: the decoded chunks the reader delivers, then either \<^verbatim>\<open>done\<close>
  (\<open>read_error = None\<close>) or a rejected \<^verbatim>\<open>read()\<close> with the message of the error thrown.
\<close>

record body =
  chunks :: "jstring list"
  read_error :: "jstring option"

datatype response =
    Rejected jstring
  | Response bool "body option"

text \<open>
  What the panel calls and does not define: the authentication service, the two table
  inserts of the data store, \<^verbatim>\<open>fetch\<close> on the chat endpoint, \<^verbatim>\<open>JSON.parse\<close>, and the optional
  \<^verbatim>\<open>onConversationCreated\<close> property. The data store's client returns an error value
  instead of throwing: \<open>Inl\<close> and \<open>Some\<close> carry it.
\<close>

record env =
  auth_getUser :: "jstring option"
  insert_conversation :: "conversation_row \<Rightarrow> jstring + jstring"
  insert_message :: "message_row \<Rightarrow> jstring option"
  fetch :: "message list \<Rightarrow> response"
  JSON_parse :: json_parser
  onConversationCreated :: bool

text \<open>
  The component's state (lines 20 to 23) and the effects it leaves behind: the \<^verbatim>\<open>toast.error\<close>
  notifications, the \<^verbatim>\<open>console.error\<close> log, the rows the data store accepted, and the
  identifiers handed to \<^verbatim>\<open>onConversationCreated\<close>.
\<close>

record panel =
  messages :: "message list"
  input :: jstring
  isLoading :: bool
  currentConvId :: "jstring option"
  toasts :: "jstring list"
  console :: "log_entry list"
  chat_conversations :: "conversation_row list"
  chat_messages :: "message_row list"
  created :: "jstring list"

definition sign_in_notice :: jstring where
  "sign_in_notice = js ''Please sign in to save conversations''"

definition conversation_title :: "jstring \<Rightarrow> jstring" where
  \<comment> \<open>line 73\<close>
  "conversation_title firstMessage =
     take 50 firstMessage @ (if length firstMessage > 50 then js ''...'' else [])"

definition createConversation :: "env \<Rightarrow> jstring \<Rightarrow> panel \<Rightarrow> jstring option \<times> panel" where
  \<comment> \<open>lines 62 to 88; \<open>None\<close> is the \<^verbatim>\<open>null\<close> it returns\<close>
  "createConversation e firstMessage p =
     (case auth_getUser e of
        None \<Rightarrow> (None, p\<lparr>toasts := toasts p @ [sign_in_notice]\<rparr>)
      | Some uid \<Rightarrow>
          (let row = \<lparr>user_id = uid, title = conversation_title firstMessage\<rparr>
           in case insert_conversation e row of
                Inl err \<Rightarrow> (None, p\<lparr>console := console p @ [ErrorCreatingConversation err]\<rparr>)
              | Inr new_id \<Rightarrow>
                  (Some new_id,
                   p\<lparr>chat_conversations := chat_conversations p @ [row],
                     currentConvId := Some new_id,
                     created := created p @ (if onConversationCreated e then [new_id] else [])\<rparr>)))"

definition saveMessage :: "env \<Rightarrow> jstring \<Rightarrow> role \<Rightarrow> jstring \<Rightarrow> panel \<Rightarrow> panel" where
  \<comment> \<open>lines 90 to 102\<close>
  "saveMessage e convId r c p =
     (let row = \<lparr>conversation_id = convId, row_role = r, row_content = c\<rparr>
      in case insert_message e row of
           Some err \<Rightarrow> p\<lparr>console := console p @ [ErrorSavingMessage err]\<rparr>
         | None \<Rightarrow> p\<lparr>chat_messages := chat_messages p @ [row]\<rparr>)"

fun present :: "jstring option \<Rightarrow> bool" where
  \<comment> \<open>\<^verbatim>\<open>if (convId)\<close>: neither \<^verbatim>\<open>undefined\<close>, \<^verbatim>\<open>null\<close> nor the empty string\<close>
  "present None = False"
| "present (Some c) = (c \<noteq> [])"

definition begin_turn :: "env \<Rightarrow> jstring \<Rightarrow> panel \<Rightarrow> jstring option \<times> panel" where
  \<comment> \<open>lines 115 to 122: the conversation to save under, created on first use, and the
      save of the user's message\<close>
  "begin_turn e userMessage p =
     (case (if \<not> present (currentConvId p) then createConversation e userMessage p
            else (currentConvId p, p)) of
        (convId, p1) \<Rightarrow>
          (convId, if present convId then saveMessage e (the convId) User userMessage p1 else p1))"

definition show_stream :: "message list \<Rightarrow> stream_state \<Rightarrow> panel \<Rightarrow> panel" where
  \<comment> \<open>the last \<^verbatim>\<open>setMessages\<close> of line 167, if any, is what the panel shows\<close>
  "show_stream newMessages st p =
     (if snapshots st = [] then p
      else p\<lparr>messages := newMessages @ [\<lparr>role = Assistant, content = last (snapshots st)\<rparr>]\<rparr>)"

definition finish_turn :: "env \<Rightarrow> jstring option \<Rightarrow> stream_state \<Rightarrow> panel \<Rightarrow> panel" where
  \<comment> \<open>lines 176 to 178\<close>
  "finish_turn e convId st p =
     (if present convId \<and> assistantMessage st \<noteq> []
      then saveMessage e (the convId) Assistant (assistantMessage st) p
      else p)"

definition respond :: "env \<Rightarrow> jstring option \<Rightarrow> message list \<Rightarrow> panel \<Rightarrow> (jstring option \<times> panel) option" where
  \<comment> \<open>lines 124 to 178. The result is \<open>None\<close> if the loop never exits, and otherwise the
      message of the error thrown (if one was) with the state reached\<close>
  "respond e convId newMessages p =
     (case fetch e newMessages of
        Rejected msg \<Rightarrow> Some (Some msg, p)
      | Response ok None \<Rightarrow> Some (Some (js ''Failed to get response''), p)
      | Response ok (Some b) \<Rightarrow>
          (if \<not> ok then Some (Some (js ''Failed to get response''), p)
           else
             (case read_loop (JSON_parse e) (chunks b) stream_start of
                None \<Rightarrow> None
              | Some st \<Rightarrow>
                  (case read_error b of
                     Some msg \<Rightarrow> Some (Some msg, show_stream newMessages st p)
                   | None \<Rightarrow> Some (None, finish_turn e convId st (show_stream newMessages st p))))))"

definition handleSend :: "env \<Rightarrow> panel \<Rightarrow> panel option" where
  \<comment> \<open>lines 104 to 186\<close>
  "handleSend e p =
     (if trim (input p) = [] \<or> isLoading p then Some p
      else
        (let userMessage = trim (input p);
             newMessages = messages p @ [\<lparr>role = User, content = userMessage\<rparr>];
             p1 = p\<lparr>input := [], messages := newMessages, isLoading := True\<rparr>
         in case begin_turn e userMessage p1 of
              (convId, p2) \<Rightarrow>
                (case respond e convId newMessages p2 of
                   None \<Rightarrow> None
                 | Some (None, p3) \<Rightarrow> Some (p3\<lparr>isLoading := False\<rparr>)
                 | Some (Some msg, p3) \<Rightarrow>
                     Some (p3\<lparr>console := console p3 @ [ChatError msg],
                              toasts := toasts p3 @ [if msg = [] then js ''Failed to get response'' else msg],
                              isLoading := False\<rparr>))))"

section \<open>Notions used in the statements\<close>

definition turn_error :: "env \<Rightarrow> message list \<Rightarrow> jstring option" where
  \<comment> \<open>the message of the error lines 124 to 174 throw, if any: a rejected \<^verbatim>\<open>fetch\<close>, the
      \<^verbatim>\<open>throw\<close> of line 136, or a rejected \<^verbatim>\<open>read()\<close>\<close>
  "turn_error e ms =
     (case fetch e ms of
        Rejected msg \<Rightarrow> Some msg
      | Response ok None \<Rightarrow> Some (js ''Failed to get response'')
      | Response ok (Some b) \<Rightarrow>
          (if \<not> ok then Some (js ''Failed to get response'') else read_error b))"

definition on_screen :: "panel \<Rightarrow> message list \<times> jstring \<times> bool \<times> jstring list" where
  \<comment> \<open>what the user sees of the panel: the message list, the input box, the spinner and
      the notifications\<close>
  "on_screen p = (messages p, input p, isLoading p, toasts p)"

definition quiet :: "stream_state \<Rightarrow> bool" where
  \<comment> \<open>nothing shown yet means nothing accumulated yet\<close>
  "quiet st = (snapshots st = [] \<longrightarrow> assistantMessage st = [])"

definition shown_messages :: "env \<Rightarrow> message list \<Rightarrow> message list" where
  \<comment> \<open>the message list a turn ends with: \<^verbatim>\<open>newMessages\<close>, and the last snapshot of the stream
      when there was one\<close>
  "shown_messages e ms =
     (case fetch e ms of
        Rejected msg \<Rightarrow> ms
      | Response ok None \<Rightarrow> ms
      | Response ok (Some b) \<Rightarrow>
          (if \<not> ok then ms
           else (case read_loop (JSON_parse e) (chunks b) stream_start of
                   None \<Rightarrow> ms
                 | Some st \<Rightarrow>
                     (if snapshots st = [] then ms
                      else ms @ [\<lparr>role = Assistant, content = last (snapshots st)\<rparr>]))))"

definition error_toast :: "jstring option \<Rightarrow> jstring list" where
  \<comment> \<open>line 182: \<^verbatim>\<open>toast.error(error.message || 'Failed to get response')\<close>\<close>
  "error_toast x =
     (case x of None \<Rightarrow> [] | Some msg \<Rightarrow> [if msg = [] then js ''Failed to get response'' else msg])"

definition frames_text :: "jstring list \<Rightarrow> jstring" where
  \<comment> \<open>the text of a run of lines, each closed by a line feed\<close>
  "frames_text ls = concat (map (\<lambda>l. l @ [LF]) ls)"

definition delta_line :: "json_parser \<Rightarrow> jstring \<Rightarrow> jstring \<Rightarrow> bool" where
  \<comment> \<open>\<open>l\<close> is a well-formed data line carrying the non-empty delta \<open>d\<close>: it starts with
      \<^verbatim>\<open>data: \<close>, has no line feed, and its payload is not the sentinel and parses to a
      record whose first choice's delta content is the string \<open>d\<close>\<close>
  "delta_line P l d =
     (LF \<notin> set l \<and> startsWith l (js ''data: '') \<and> d \<noteq> []
      \<and> trim (drop 6 (strip_cr l)) \<noteq> js ''[DONE]''
      \<and> (case P (trim (drop 6 (strip_cr l))) of
            None \<Rightarrow> False
          | Some parsed \<Rightarrow> delta_content parsed = Some (Val (JStr d))))"

definition accept :: "jstring \<Rightarrow> stream_state \<Rightarrow> stream_state" where
  \<comment> \<open>lines 166 and 167 for a string delta\<close>
  "accept d st = st\<lparr>assistantMessage := assistantMessage st @ d,
                    snapshots := snapshots st @ [assistantMessage st @ d]\<rparr>"

fun accept_all :: "jstring list \<Rightarrow> stream_state \<Rightarrow> stream_state" where
  "accept_all [] st = st"
| "accept_all (d # ds) st = accept_all ds (accept d st)"

definition leaves_loop :: "json_parser \<Rightarrow> jstring \<Rightarrow> bool" where
  \<comment> \<open>the body leaves the inner loop on this line: the sentinel, or a \<^verbatim>\<open>try\<close> block that throws\<close>
  "leaves_loop P line = (case handle_line P line stream_start of Break st \<Rightarrow> True | Continue st \<Rightarrow> False)"

definition sentinel_line :: "jstring \<Rightarrow> bool" where
  \<comment> \<open>lines 157 to 160: a data line whose payload is \<^verbatim>\<open>[DONE]\<close>\<close>
  "sentinel_line line = (startsWith line (js ''data: '') \<and> trim (drop 6 line) = js ''[DONE]'')"

fun pass_lines :: "json_parser \<Rightarrow> jstring list \<Rightarrow> stream_state \<Rightarrow> stream_state" where
  \<comment> \<open>the state after the body has run on each of the lines in turn, as read from the buffer\<close>
  "pass_lines P [] st = st"
| "pass_lines P (l # ls) st =
     (case handle_line P (strip_cr l) st of
        Continue st' \<Rightarrow> pass_lines P ls st'
      | Break st' \<Rightarrow> st')"

definition stays :: "json_parser \<Rightarrow> jstring \<Rightarrow> bool" where
  \<comment> \<open>a line of the text on which the body goes on to the next iteration\<close>
  "stays P l = (LF \<notin> set l \<and> \<not> leaves_loop P (strip_cr l))"

definition closes :: "jstring \<Rightarrow> bool" where
  \<comment> \<open>a line of the text that is the sentinel\<close>
  "closes l = (LF \<notin> set l \<and> sentinel_line (strip_cr l))"

section \<open>A runtime for the examples\<close>

text \<open>
  Concrete collaborators for the closed examples below. \<open>example_parse\<close> agrees with
  \<^verbatim>\<open>JSON.parse\<close> on the texts the examples use: a completion frame whose content has no
  quote, backslash or control character, the literal \<^verbatim>\<open>{}\<close>, and texts that are not JSON.
\<close>

definition delta_frame :: "jstring \<Rightarrow> json" where
  "delta_frame d =
     JObj [(js ''choices'', JArr [JObj [(js ''delta'', JObj [(js ''content'', JStr d)])]])]"

definition frame_text :: "jstring \<Rightarrow> jstring" where
  \<open>frame_text d = js ''{"choices":[{"delta":{"content":"'' @ d @ js ''"}}]}''\<close>

definition example_parse :: json_parser where
  \<open>example_parse s =
     (let pre = js ''{"choices":[{"delta":{"content":"''; suf = js ''"}}]}'';
          d = take (length s - length pre - length suf) (drop (length pre) s)
      in if s = pre @ d @ suf \<and> list_all (\<lambda>c. 0x20 \<le> c \<and> c \<noteq> 0x22 \<and> c \<noteq> 0x5C) d
         then Some (delta_frame d)
         else if s = js ''{}'' then Some (JObj [])
         else None)\<close>

definition example_env :: env where
  "example_env =
     \<lparr>auth_getUser = None,
      insert_conversation = (\<lambda>row. Inr (js ''c1'')),
      insert_message = (\<lambda>row. None),
      fetch = (\<lambda>ms. Response True (Some \<lparr>chunks = [js ''data: '' @ frame_text (js ''Hi'') @ [LF], js ''data: [DONE]'' @ [LF]], read_error = None\<rparr>)),
      JSON_parse = example_parse,
      onConversationCreated = True\<rparr>"

definition example_panel :: panel where
  "example_panel =
     \<lparr>messages = [], input = js ''What are my rights?'', isLoading = False, currentConvId = None,
      toasts = [], console = [], chat_conversations = [], chat_messages = [], created = []\<rparr>"

definition example_bad_line :: jstring where
  "example_bad_line = js ''data: {oops'' @ [CR]"

definition example_empty_delta :: jstring where
  "example_empty_delta = js ''data: '' @ frame_text []"

definition example_no_delta :: jstring where
  "example_no_delta = js ''data: {}''"

definition example_two_sends :: "panel option" where
  \<comment> \<open>two sends in a row with nobody signed in; the user types again in between\<close>
  "example_two_sends =
     (case handleSend example_env example_panel of
        None \<Rightarrow> None
      | Some p1 \<Rightarrow> handleSend example_env (p1\<lparr>input := js ''And then?''\<rparr>))"

definition example_signed_in :: env where
  "example_signed_in = example_env\<lparr>auth_getUser := Some (js ''u1'')\<rparr>"

definition example_silent_body :: body where
  "example_silent_body =
     \<lparr>chunks = [example_no_delta @ [LF], js ''data: [DONE]'' @ [LF]], read_error = None\<rparr>"

definition example_silent_env :: env where
  "example_silent_env = example_signed_in\<lparr>fetch := (\<lambda>ms. Response True (Some example_silent_body))\<rparr>"

definition example_failing_store :: "message_row \<Rightarrow> jstring option" where
  "example_failing_store = (\<lambda>row. Some (js ''unavailable''))"

definition example_lines :: "jstring list" where
  "example_lines =
     [js ''data: '' @ frame_text (js ''You have ''),
      js ''data: '' @ frame_text (js ''the right to remain silent.'') @ [CR]]"

definition example_deltas :: "jstring list" where
  "example_deltas = [js ''You have '', js ''the right to remain silent.'']"

definition example_stream :: jstring where
  "example_stream = frames_text example_lines @ js ''data: [DONE]'' @ [LF]"

definition example_chunks :: "jstring list" where
  \<comment> \<open>the stream cut inside the first frame and inside the second, with an empty chunk\<close>
  "example_chunks =
     [take 17 example_stream, drop 17 (take 60 example_stream), [], drop 60 example_stream]"

definition example_reader_lines :: "jstring list" where
  "example_reader_lines =
     [js '': ping'', js ''data: '' @ frame_text (js ''Hi'') @ [CR], js ''event: x'']"

definition example_reader_text :: jstring where
  "example_reader_text =
     frames_text (example_reader_lines @ [js ''data: [DONE]'']) @ js ''tail''"

definition example_reader_chunks :: "jstring list" where
  "example_reader_chunks =
     [take 3 example_reader_text, drop 3 (take 30 example_reader_text), [],
      drop 30 example_reader_text]"

definition example_stuck_text :: jstring where
  "example_stuck_text = js ''data: {oops'' @ [LF] @ js ''x'' @ [LF]"

definition example_split_head :: jstring where
  \<comment> \<open>a completion frame cut by a line feed before its last two characters\<close>
  \<open>example_split_head = js ''data: {"choices":[{"delta":{"content":"A"}}''\<close>

definition example_split_chunks :: "jstring list" where
  "example_split_chunks =
     [example_split_head @ [LF], js '']}'' @ [LF] @ js ''data: [DONE]'' @ [LF]]"

definition example_blocked_chunks :: "jstring list" where
  \<comment> \<open>a malformed frame, then a well-formed one and the sentinel\<close>
  "example_blocked_chunks =
     [js ''data: {oops'' @ [LF], js ''data: '' @ frame_text (js ''B'') @ [LF] @ js ''data: [DONE]'' @ [LF]]"

section \<open>Lines, buffers and termination\<close>

lemma indexOf_Some_less: "indexOf c s = Some i \<Longrightarrow> i < length s"
  by (induction s arbitrary: i) (auto split: if_splits)

lemma next_line_shorter: "next_line buf = Some (line, rest) \<Longrightarrow> length rest < length buf"
  by (auto simp: next_line_def split: option.splits dest: indexOf_Some_less)

lemma indexOf_None_iff: "indexOf c s = None \<longleftrightarrow> c \<notin> set s"
  by (induction s) auto

lemma indexOf_append: "c \<notin> set a \<Longrightarrow> indexOf c (a @ c # b) = Some (length a)"
  by (induction a) auto

lemma next_line_None_iff: "next_line buf = None \<longleftrightarrow> LF \<notin> set buf"
  using indexOf_None_iff[of LF buf] by (cases "indexOf LF buf") (auto simp: next_line_def)

lemma next_line_append:
  "LF \<notin> set raw \<Longrightarrow> next_line (raw @ LF # rest) = Some (strip_cr raw, rest)"
  by (simp add: next_line_def indexOf_append)

lemma try_frame_buffer: "try_frame P j st = Some st' \<Longrightarrow> textBuffer st' = textBuffer st"
  by (auto simp: try_frame_def split: option.splits if_splits jsval.splits)

lemma handle_line_buffer: "handle_line P l st = Continue st' \<Longrightarrow> textBuffer st' = textBuffer st"
  by (auto simp: handle_line_def Let_def split: if_splits option.splits dest: try_frame_buffer)

lemma process_lines_no_newline: "LF \<notin> set (textBuffer st) \<Longrightarrow> process_lines P st = Some st"
  by (subst process_lines.simps) (simp add: next_line_None_iff[THEN iffD2])

lemma process_lines_line:
  assumes "LF \<notin> set raw" and "textBuffer st = raw @ LF # rest"
  shows "process_lines P st =
     (case handle_line P (strip_cr raw) (st\<lparr>textBuffer := rest\<rparr>) of
        Continue st' \<Rightarrow> process_lines P st'
      | Break st' \<Rightarrow> Some st')"
  by (subst process_lines.simps) (simp add: assms next_line_append)

lemma process_lines_returns: "\<exists>st'. process_lines P st = Some st'"
proof (induction "length (textBuffer st)" arbitrary: st rule: less_induct)
  case less
  show ?case
  proof (cases "next_line (textBuffer st)")
    case None
    then show ?thesis by (subst process_lines.simps) simp
  next
    case (Some lr)
    obtain line rest where lr: "lr = (line, rest)" by (cases lr)
    have shorter: "length rest < length (textBuffer st)"
      using Some lr next_line_shorter by simp
    show ?thesis
    proof (cases "handle_line P line (st\<lparr>textBuffer := rest\<rparr>)")
      case (Continue st1)
      then have "textBuffer st1 = rest" by (auto dest: handle_line_buffer)
      with shorter less[of st1] obtain st' where "process_lines P st1 = Some st'" by auto
      then show ?thesis by (subst process_lines.simps) (simp add: Some lr Continue)
    next
      case (Break st1)
      then show ?thesis by (subst process_lines.simps) (simp add: Some lr)
    qed
  qed
qed

lemma read_loop_returns: "\<exists>st'. read_loop P cs st = Some st'"
proof (induction cs arbitrary: st)
  case Nil show ?case by simp
next
  case (Cons c cs)
  obtain st1 where "process_lines P (st\<lparr>textBuffer := textBuffer st @ c\<rparr>) = Some st1"
    using process_lines_returns by blast
  with Cons.IH[of st1] show ?case by simp
qed

lemma respond_returns: "\<exists>r. respond e convId ms p = Some r"
proof (cases "fetch e ms")
  case (Rejected msg)
  then show ?thesis by (simp add: respond_def)
next
  case (Response ok bo)
  show ?thesis
  proof (cases bo)
    case None
    with Response show ?thesis by (simp add: respond_def)
  next
    case (Some b)
    obtain st where "read_loop (JSON_parse e) (chunks b) stream_start = Some st"
      using read_loop_returns by blast
    with Response Some show ?thesis
      by (cases "read_error b") (simp_all add: respond_def)
  qed
qed

lemma handleSend_returns: "\<exists>p'. handleSend e p = Some p'"
proof (cases "trim (input p) = [] \<or> isLoading p")
  case True
  then show ?thesis by (auto simp: handleSend_def)
next
  case False
  define ms where "ms = messages p @ [\<lparr>role = User, content = trim (input p)\<rparr>]"
  obtain c q where b: "begin_turn e (trim (input p)) (p\<lparr>input := [], messages := ms, isLoading := True\<rparr>) = (c, q)"
    by (cases "begin_turn e (trim (input p)) (p\<lparr>input := [], messages := ms, isLoading := True\<rparr>)")
  obtain x q' where r: "respond e c ms q = Some (x, q')"
    using respond_returns[of e c ms q] by auto
  show ?thesis
    using False b r by (cases x) (auto simp: handleSend_def Let_def ms_def)
qed

text \<open>
  C10. Termination of the nested loop, for every parser, every finite list of chunks and
  every starting state: the inner loop returns, the outer loop returns, and so does the
  whole of \<^verbatim>\<open>handleSend\<close>. A parse failure puts the line back and leaves the inner loop
  at once; every other iteration continues on a strictly shorter buffer.
\<close>

theorem stream_loops_terminate:
  "(\<exists>st'. process_lines P st = Some st') \<and> (\<exists>st'. read_loop P cs st = Some st')
     \<and> (\<exists>p'. handleSend e p = Some p')"
  using process_lines_returns read_loop_returns handleSend_returns by blast

section \<open>The frame rules\<close>

lemma trim_Nil_iff: "trim s = [] \<longleftrightarrow> (\<forall>c \<in> set s. white_space c)"
proof
  assume "trim s = []"
  then have all_ws: "\<forall>x\<in>set (dropWhile white_space s). white_space x"
    by (simp add: trim_def)
  have "dropWhile white_space s = []"
  proof (rule ccontr)
    assume ne: "dropWhile white_space s \<noteq> []"
    then have "\<not> white_space (hd (dropWhile white_space s))" by (rule hd_dropWhile)
    moreover have "hd (dropWhile white_space s) \<in> set (dropWhile white_space s)"
      using ne by (rule hd_in_set)
    ultimately show False using all_ws by blast
  qed
  then show "\<forall>c\<in>set s. white_space c" by simp
next
  assume "\<forall>c\<in>set s. white_space c"
  then have "dropWhile white_space s = []" by simp
  then show "trim s = []" by (simp add: trim_def del: dropWhile_eq_Nil_conv)
qed

lemma data_prefix_facts:
  assumes "startsWith l (js ''data: '')"
  shows "\<not> startsWith l (js '':'')" and "trim l \<noteq> []"
proof -
  from assms obtain t where l: "l = 0x64 # t"
    by (cases l) (auto simp: startsWith_def js_def)
  show "\<not> startsWith l (js '':'')" by (simp add: l startsWith_def js_def)
  have "\<not> white_space (0x64 :: code_unit)" by (simp add: white_space_def)
  then show "trim l \<noteq> []" by (auto simp: trim_Nil_iff l)
qed

lemma handle_line_data:
  assumes "startsWith l (js ''data: '')"
  shows "handle_line P l st =
     (if trim (drop 6 l) = js ''[DONE]'' then Break st
      else (case try_frame P (trim (drop 6 l)) st of
              Some st' \<Rightarrow> Continue st'
            | None \<Rightarrow> Break (st\<lparr>textBuffer := l @ [LF] @ textBuffer st\<rparr>)))"
  using assms data_prefix_facts[OF assms] by (simp add: handle_line_def Let_def)

lemma toasts_saveMessage: "toasts (saveMessage e c r m p) = toasts p"
  by (simp add: saveMessage_def Let_def split: option.splits)

lemma toasts_show_stream: "toasts (show_stream ms st p) = toasts p"
  by (simp add: show_stream_def)

lemma toasts_finish_turn: "toasts (finish_turn e c st p) = toasts p"
  by (simp add: finish_turn_def toasts_saveMessage)

lemma respond_outcome:
  "\<exists>q. respond e c ms p = Some (turn_error e ms, q) \<and> toasts q = toasts p"
proof (cases "fetch e ms")
  case (Rejected msg)
  then show ?thesis by (simp add: respond_def turn_error_def)
next
  case (Response ok bo)
  show ?thesis
  proof (cases bo)
    case None
    with Response show ?thesis by (simp add: respond_def turn_error_def)
  next
    case (Some b)
    obtain st where "read_loop (JSON_parse e) (chunks b) stream_start = Some st"
      using read_loop_returns by blast
    with Response Some show ?thesis
      by (cases "read_error b")
         (simp_all add: respond_def turn_error_def toasts_show_stream toasts_finish_turn)
  qed
qed

lemma saveMessage_parser: "saveMessage (e\<lparr>JSON_parse := P\<rparr>) c r m p = saveMessage e c r m p"
  by (simp add: saveMessage_def)

lemma createConversation_parser:
  "createConversation (e\<lparr>JSON_parse := P\<rparr>) m p = createConversation e m p"
  by (simp add: createConversation_def Let_def split: option.splits sum.splits)

lemma begin_turn_parser:
  "begin_turn (e\<lparr>JSON_parse := P\<rparr>) m p = begin_turn e m p"
  by (simp add: begin_turn_def createConversation_parser saveMessage_parser split: prod.splits)

lemma toasts_parser_free:
  "map_option toasts (handleSend (e\<lparr>JSON_parse := P\<rparr>) p) = map_option toasts (handleSend e p)"
proof (cases "trim (input p) = [] \<or> isLoading p")
  case True
  then show ?thesis by (auto simp: handleSend_def)
next
  case False
  define ms where "ms = messages p @ [\<lparr>role = User, content = trim (input p)\<rparr>]"
  define p1 where "p1 = p\<lparr>input := [], messages := ms, isLoading := True\<rparr>"
  obtain c q where b: "begin_turn e (trim (input p)) p1 = (c, q)"
    by (cases "begin_turn e (trim (input p)) p1")
  have te: "turn_error (e\<lparr>JSON_parse := P\<rparr>) ms = turn_error e ms"
    by (simp add: turn_error_def)
  obtain q1 where r1: "respond e c ms q = Some (turn_error e ms, q1)" "toasts q1 = toasts q"
    using respond_outcome by blast
  obtain q2 where r2: "respond (e\<lparr>JSON_parse := P\<rparr>) c ms q = Some (turn_error e ms, q2)"
      "toasts q2 = toasts q"
    using respond_outcome[of "e\<lparr>JSON_parse := P\<rparr>" c ms q] te by auto
  show ?thesis
    using False b r1 r2
    by (cases "turn_error e ms")
       (simp_all add: handleSend_def Let_def begin_turn_parser ms_def[symmetric] p1_def[symmetric])
qed

lemma process_failed_line:
  assumes "LF \<notin> set raw" and "textBuffer st = raw @ LF # rest"
    and "startsWith (strip_cr raw) (js ''data: '')"
    and "trim (drop 6 (strip_cr raw)) \<noteq> js ''[DONE]''"
    and "P (trim (drop 6 (strip_cr raw))) = None"
  shows "process_lines P st = Some (st\<lparr>textBuffer := strip_cr raw @ [LF] @ rest\<rparr>)"
proof -
  have "try_frame P (trim (drop 6 (strip_cr raw))) (st\<lparr>textBuffer := rest\<rparr>) = None"
    using assms(5) by (simp add: try_frame_def)
  then have "handle_line P (strip_cr raw) (st\<lparr>textBuffer := rest\<rparr>)
      = Break (st\<lparr>textBuffer := strip_cr raw @ [LF] @ rest\<rparr>)"
    using assms(4) by (simp add: handle_line_data[OF assms(3)])
  then show ?thesis
    using process_lines_line[OF assms(1,2), where P = P] by simp
qed

text \<open>
  A data line whose payload \<^verbatim>\<open>JSON.parse\<close> rejects: the inner loop stops with the line
  (as read, without its carriage return) put back in front of the buffer, followed by a
  line feed and the rest of the buffer; the message and the snapshots are untouched. And no
  parser outcome reaches the user: the notifications of a whole turn are the same for every
  parser.
\<close>

theorem parse_failure_pushes_line_back:
  assumes "LF \<notin> set raw" and "textBuffer st = raw @ LF # rest"
    and "startsWith (strip_cr raw) (js ''data: '')"
    and "trim (drop 6 (strip_cr raw)) \<noteq> js ''[DONE]''"
    and "P (trim (drop 6 (strip_cr raw))) = None"
  shows "process_lines P st = Some (st\<lparr>textBuffer := strip_cr raw @ [LF] @ rest\<rparr>)
     \<and> map_option toasts (handleSend (e\<lparr>JSON_parse := P\<rparr>) p) = map_option toasts (handleSend e p)"
  using process_failed_line[where P = P and raw = raw, OF assms] toasts_parser_free by simp

theorem parse_failure_pushes_line_back_witness:
  "LF \<notin> set example_bad_line
   \<and> startsWith (strip_cr example_bad_line) (js ''data: '')
   \<and> trim (drop 6 (strip_cr example_bad_line)) \<noteq> js ''[DONE]''
   \<and> example_parse (trim (drop 6 (strip_cr example_bad_line))) = None
   \<and> process_lines example_parse
        (stream_start\<lparr>textBuffer := example_bad_line @ LF # js ''data: [DONE]''\<rparr>)
       = Some (stream_start\<lparr>textBuffer := js ''data: {oops'' @ [LF] @ js ''data: [DONE]''\<rparr>)"
proof -
  have h1: "LF \<notin> set example_bad_line" by code_simp
  have h2: "textBuffer (stream_start\<lparr>textBuffer := example_bad_line @ LF # js ''data: [DONE]''\<rparr>)
      = example_bad_line @ LF # js ''data: [DONE]''" by simp
  have h3: "startsWith (strip_cr example_bad_line) (js ''data: '')" by code_simp
  have h4: "trim (drop 6 (strip_cr example_bad_line)) \<noteq> js ''[DONE]''" by code_simp
  have h5: "example_parse (trim (drop 6 (strip_cr example_bad_line))) = None" by code_simp
  have s: "strip_cr example_bad_line = js ''data: {oops''" by code_simp
  show ?thesis
    using parse_failure_pushes_line_back[where P = example_parse and raw = example_bad_line
        and e = example_env and p = example_panel, OF h1 h2 h3 h4 h5]
      h1 h3 h4 h5 by (simp add: s)
qed

text \<open>
  What follows a parse failure: the line put back ends in a line feed, so every later chunk
  finds it first in the buffer again, fails on it again, and leaves the loop; nothing behind
  it is ever read.
\<close>

lemma failed_line_stays:
  assumes "LF \<notin> set l" and "strip_cr l = l"
    and "startsWith l (js ''data: '')"
    and "trim (drop 6 l) \<noteq> js ''[DONE]''"
    and "P (trim (drop 6 l)) = None"
    and "textBuffer st = l @ LF # rest"
  shows "read_loop P cs st = Some (st\<lparr>textBuffer := textBuffer st @ concat cs\<rparr>)"
  using assms(6)
proof (induction cs arbitrary: st rest)
  case Nil
  then show ?case by simp
next
  case (Cons c cs)
  define st1 where "st1 = st\<lparr>textBuffer := l @ LF # (rest @ c)\<rparr>"
  have b: "textBuffer st1 = l @ LF # (rest @ c)" by (simp add: st1_def)
  have "process_lines P (st\<lparr>textBuffer := textBuffer st @ c\<rparr>) = process_lines P st1"
    by (simp add: st1_def Cons.prems)
  also have "\<dots> = Some (st1\<lparr>textBuffer := l @ [LF] @ rest @ c\<rparr>)"
    using process_failed_line[OF assms(1) b, where P = P] assms(2,3,4,5) by simp
  also have "st1\<lparr>textBuffer := l @ [LF] @ rest @ c\<rparr> = st1" by (simp add: st1_def)
  finally have step: "process_lines P (st\<lparr>textBuffer := textBuffer st @ c\<rparr>) = Some st1" .
  from Cons.IH[OF b] step show ?case by (simp add: st1_def Cons.prems)
qed

text \<open>
  C5. The line put back does not recombine with what comes after it. A completion frame cut
  in two by a line feed fails to parse as its first half, is put back, and is cut at the same
  line feed again when the second half arrives: the message stays empty and the whole text
  stays in the buffer. And behind a malformed frame a well-formed frame and the sentinel are
  never read.
\<close>

theorem split_frame_never_recombines:
  "read_loop example_parse example_split_chunks stream_start
     = Some \<lparr>assistantMessage = [],
            textBuffer = example_split_head @ [LF] @ js '']}'' @ [LF] @ js ''data: [DONE]'' @ [LF],
            snapshots = []\<rparr>
   \<and> read_loop example_parse example_blocked_chunks stream_start
     = Some \<lparr>assistantMessage = [],
            textBuffer = js ''data: {oops'' @ [LF] @ js ''data: '' @ frame_text (js ''B'') @ [LF]
                           @ js ''data: [DONE]'' @ [LF],
            snapshots = []\<rparr>"
  by code_simp

text \<open>
  C9. A data line whose payload parses and whose \<^verbatim>\<open>choices?.[0]?.delta?.content\<close> is
  \<^verbatim>\<open>undefined\<close> or the empty string: the body falls through to the next iteration with the
  state it was given (message, snapshots and buffer unchanged, nothing put back), so the
  loop goes on exactly as if the line had not been there.
\<close>

theorem empty_delta_is_dropped:
  assumes "LF \<notin> set raw" and "textBuffer st = raw @ LF # rest"
    and "startsWith (strip_cr raw) (js ''data: '')"
    and "trim (drop 6 (strip_cr raw)) \<noteq> js ''[DONE]''"
    and "P (trim (drop 6 (strip_cr raw))) = Some parsed"
    and "delta_content parsed = Some Undefined \<or> delta_content parsed = Some (Val (JStr []))"
  shows "handle_line P (strip_cr raw) (st\<lparr>textBuffer := rest\<rparr>) = Continue (st\<lparr>textBuffer := rest\<rparr>)
     \<and> process_lines P st = process_lines P (st\<lparr>textBuffer := rest\<rparr>)"
proof -
  have "try_frame P (trim (drop 6 (strip_cr raw))) (st\<lparr>textBuffer := rest\<rparr>)
      = Some (st\<lparr>textBuffer := rest\<rparr>)"
    using assms(5,6) by (auto simp: try_frame_def)
  then have "handle_line P (strip_cr raw) (st\<lparr>textBuffer := rest\<rparr>) = Continue (st\<lparr>textBuffer := rest\<rparr>)"
    using assms(4) by (simp add: handle_line_data[OF assms(3)])
  then show ?thesis
    using process_lines_line[OF assms(1,2), of P] by simp
qed

theorem empty_delta_is_dropped_witness:
  "LF \<notin> set example_empty_delta
   \<and> startsWith (strip_cr example_empty_delta) (js ''data: '')
   \<and> trim (drop 6 (strip_cr example_empty_delta)) \<noteq> js ''[DONE]''
   \<and> example_parse (trim (drop 6 (strip_cr example_empty_delta))) = Some (delta_frame [])
   \<and> delta_content (delta_frame []) = Some (Val (JStr []))
   \<and> process_lines example_parse (stream_start\<lparr>textBuffer := example_empty_delta @ LF # js ''tail''\<rparr>)
       = process_lines example_parse (stream_start\<lparr>textBuffer := js ''tail''\<rparr>)
   \<and> LF \<notin> set example_no_delta
   \<and> startsWith (strip_cr example_no_delta) (js ''data: '')
   \<and> trim (drop 6 (strip_cr example_no_delta)) \<noteq> js ''[DONE]''
   \<and> example_parse (trim (drop 6 (strip_cr example_no_delta))) = Some (JObj [])
   \<and> delta_content (JObj []) = Some Undefined
   \<and> process_lines example_parse (stream_start\<lparr>textBuffer := example_no_delta @ LF # js ''tail''\<rparr>)
       = process_lines example_parse (stream_start\<lparr>textBuffer := js ''tail''\<rparr>)"
proof -
  have a1: "LF \<notin> set example_empty_delta" by code_simp
  have a2: "textBuffer (stream_start\<lparr>textBuffer := example_empty_delta @ LF # js ''tail''\<rparr>)
      = example_empty_delta @ LF # js ''tail''" by simp
  have a3: "startsWith (strip_cr example_empty_delta) (js ''data: '')" by code_simp
  have a4: "trim (drop 6 (strip_cr example_empty_delta)) \<noteq> js ''[DONE]''" by code_simp
  have a5: "example_parse (trim (drop 6 (strip_cr example_empty_delta))) = Some (delta_frame [])"
    by code_simp
  have a6: "delta_content (delta_frame []) = Some (Val (JStr []))" by code_simp
  have b1: "LF \<notin> set example_no_delta" by code_simp
  have b2: "textBuffer (stream_start\<lparr>textBuffer := example_no_delta @ LF # js ''tail''\<rparr>)
      = example_no_delta @ LF # js ''tail''" by simp
  have b3: "startsWith (strip_cr example_no_delta) (js ''data: '')" by code_simp
  have b4: "trim (drop 6 (strip_cr example_no_delta)) \<noteq> js ''[DONE]''" by code_simp
  have b5: "example_parse (trim (drop 6 (strip_cr example_no_delta))) = Some (JObj [])"
    by code_simp
  have b6: "delta_content (JObj []) = Some Undefined" by code_simp
  show ?thesis
    using empty_delta_is_dropped[where P = example_parse and raw = example_empty_delta,
        OF a1 a2 a3 a4 a5 disjI2[OF a6]]
      empty_delta_is_dropped[where P = example_parse and raw = example_no_delta,
        OF b1 b2 b3 b4 b5 disjI1[OF b6]]
      a1 a3 a4 a5 a6 b1 b3 b4 b5 b6 by simp
qed

lemma conversation_title_cases:
  "conversation_title m = (if length m \<le> 50 then m else take 50 m @ js ''...'')"
  by (simp add: conversation_title_def)

lemma title_examples:
  "conversation_title (js ''Hello'') = js ''Hello''"
  "conversation_title (replicate 60 0x78) = replicate 50 0x78 @ js ''...''"
  by (simp_all add: conversation_title_def js_def)

text \<open>
  C4. Whenever \<^verbatim>\<open>createConversation\<close> creates a conversation, the row it inserts carries as
  title the seed message itself when that has at most 50 code units, and otherwise its first
  50 code units followed by three full stops.
\<close>

theorem title_of_new_conversation:
  assumes "createConversation e m p = (Some new_id, p')"
  shows "\<exists>uid. chat_conversations p' = chat_conversations p @
           [\<lparr>user_id = uid, title = (if length m \<le> 50 then m else take 50 m @ js ''...'')\<rparr>]"
  using assms
  by (auto simp: createConversation_def Let_def conversation_title_cases
      split: option.splits sum.splits)

theorem title_of_new_conversation_witness:
  "createConversation (example_env\<lparr>auth_getUser := Some (js ''u1'')\<rparr>) (js ''Hello'') example_panel
     = (Some (js ''c1''), example_panel\<lparr>chat_conversations := [\<lparr>user_id = js ''u1'', title = js ''Hello''\<rparr>],
          currentConvId := Some (js ''c1''), created := [js ''c1'']\<rparr>)
   \<and> (\<exists>uid. [\<lparr>user_id = js ''u1'', title = js ''Hello''\<rparr>]
          = [\<lparr>user_id = uid, title = js ''Hello''\<rparr>])"
proof -
  have h: "createConversation (example_env\<lparr>auth_getUser := Some (js ''u1'')\<rparr>) (js ''Hello'') example_panel
     = (Some (js ''c1''), example_panel\<lparr>chat_conversations := [\<lparr>user_id = js ''u1'', title = js ''Hello''\<rparr>],
          currentConvId := Some (js ''c1''), created := [js ''c1'']\<rparr>)"
    by (simp add: createConversation_def example_env_def example_panel_def conversation_title_def js_def)
  show ?thesis
    using title_of_new_conversation[OF h] h by (simp add: example_panel_def js_def)
qed

text \<open>
  C3. The stream \<^verbatim>\<open>data: [DONE]\<close> in one chunk and a completion frame carrying \<^verbatim>\<open>X\<close> in the
  next: the sentinel only leaves the inner loop, the outer loop reads on, and the later frame
  is appended to the message and shown.
\<close>

theorem frame_after_done_is_appended:
  "read_loop example_parse
     [js ''data: [DONE]'' @ [LF], js ''data: '' @ frame_text (js ''X'') @ [LF]] stream_start
   = Some \<lparr>assistantMessage = js ''X'', textBuffer = [], snapshots = [js ''X'']\<rparr>"
  by code_simp

section \<open>The turn: saving and showing\<close>

lemma quiet_try_frame: "quiet st \<Longrightarrow> try_frame P j st = Some st' \<Longrightarrow> quiet st'"
  by (auto simp: try_frame_def quiet_def split: option.splits if_splits jsval.splits)

lemma quiet_handle_line:
  "quiet st \<Longrightarrow> handle_line P l st = Continue st' \<or> handle_line P l st = Break st' \<Longrightarrow> quiet st'"
  by (auto simp: handle_line_def Let_def quiet_def split: if_splits option.splits
      dest!: quiet_try_frame[unfolded quiet_def, rotated])

lemma quiet_process_lines: "quiet st \<Longrightarrow> process_lines P st = Some st' \<Longrightarrow> quiet st'"
proof (induction "length (textBuffer st)" arbitrary: st rule: less_induct)
  case less
  show ?case
  proof (cases "next_line (textBuffer st)")
    case None
    with less.prems show ?thesis by (subst (asm) process_lines.simps) simp
  next
    case (Some lr)
    obtain line rest where lr: "lr = (line, rest)" by (cases lr)
    have shorter: "length rest < length (textBuffer st)"
      using Some lr next_line_shorter by simp
    have q0: "quiet (st\<lparr>textBuffer := rest\<rparr>)" using less.prems(1) by (simp add: quiet_def)
    show ?thesis
    proof (cases "handle_line P line (st\<lparr>textBuffer := rest\<rparr>)")
      case (Continue st1)
      then have b: "textBuffer st1 = rest" by (auto dest: handle_line_buffer)
      have q1: "quiet st1" using quiet_handle_line[OF q0] Continue by blast
      have "process_lines P st1 = Some st'"
        using less.prems(2) by (subst (asm) process_lines.simps) (simp add: Some lr Continue)
      with less.hyps[of st1] b shorter q1 show ?thesis by simp
    next
      case (Break st1)
      have "st' = st1"
        using less.prems(2) by (subst (asm) process_lines.simps) (simp add: Some lr Break)
      with quiet_handle_line[OF q0] Break show ?thesis by blast
    qed
  qed
qed

lemma quiet_read_loop: "quiet st \<Longrightarrow> read_loop P cs st = Some st' \<Longrightarrow> quiet st'"
proof (induction cs arbitrary: st)
  case Nil then show ?case by simp
next
  case (Cons c cs)
  from Cons.prems(2) obtain st1 where
    s1: "process_lines P (st\<lparr>textBuffer := textBuffer st @ c\<rparr>) = Some st1"
    and s2: "read_loop P cs st1 = Some st'"
    by (auto split: option.splits)
  have "quiet (st\<lparr>textBuffer := textBuffer st @ c\<rparr>)" using Cons.prems(1) by (simp add: quiet_def)
  from quiet_process_lines[OF this s1] Cons.IH s2 show ?case by blast
qed

lemma no_snapshot_no_message:
  "read_loop P cs stream_start = Some st \<Longrightarrow> snapshots st = [] \<Longrightarrow> assistantMessage st = []"
  using quiet_read_loop[of stream_start P cs st] by (simp add: quiet_def stream_start_def)

text \<open>
  C6. A response whose stream ends without a single accepted delta (no snapshot was shown):
  lines 176 to 178 skip the save whatever the conversation, and the whole turn ends in the
  state the user's own save left, with the spinner off: no assistant row, no notification,
  no log entry.
\<close>

theorem empty_response_is_not_saved:
  assumes "trim (input p) \<noteq> []" and "\<not> isLoading p"
    and "fetch e (messages p @ [\<lparr>role = User, content = trim (input p)\<rparr>]) = Response True (Some b)"
    and "read_error b = None"
    and "read_loop (JSON_parse e) (chunks b) stream_start = Some st"
    and "snapshots st = []"
  shows "finish_turn e convId st q = q
     \<and> handleSend e p =
         Some ((snd (begin_turn e (trim (input p))
                  (p\<lparr>input := [], messages := messages p @ [\<lparr>role = User, content = trim (input p)\<rparr>],
                     isLoading := True\<rparr>)))\<lparr>isLoading := False\<rparr>)"
proof -
  have empty: "assistantMessage st = []" using no_snapshot_no_message[OF assms(5,6)] .
  have fin: "finish_turn e c st r = r" for c r by (simp add: finish_turn_def empty)
  have "respond e c (messages p @ [\<lparr>role = User, content = trim (input p)\<rparr>]) r = Some (None, r)" for c r
    using assms(3,4,5,6) by (simp add: respond_def fin show_stream_def)
  then show ?thesis
    using assms(1,2) fin by (simp add: handleSend_def Let_def split: prod.splits)
qed

theorem empty_response_is_not_saved_witness:
  "trim (input example_panel) \<noteq> [] \<and> \<not> isLoading example_panel
   \<and> fetch example_silent_env (messages example_panel @ [\<lparr>role = User, content = trim (input example_panel)\<rparr>])
       = Response True (Some example_silent_body)
   \<and> read_error example_silent_body = None
   \<and> read_loop (JSON_parse example_silent_env) (chunks example_silent_body) stream_start = Some stream_start
   \<and> snapshots stream_start = []
   \<and> map_option chat_messages (handleSend example_silent_env example_panel)
       = Some [\<lparr>conversation_id = js ''c1'', row_role = User, row_content = js ''What are my rights?''\<rparr>]"
proof -
  have h1: "trim (input example_panel) \<noteq> []" by code_simp
  have h2: "\<not> isLoading example_panel" by code_simp
  have h3: "fetch example_silent_env (messages example_panel @ [\<lparr>role = User, content = trim (input example_panel)\<rparr>])
       = Response True (Some example_silent_body)"
    by (simp add: example_silent_env_def)
  have h4: "read_error example_silent_body = None" by (simp add: example_silent_body_def)
  have h5: "read_loop (JSON_parse example_silent_env) (chunks example_silent_body) stream_start = Some stream_start"
    by code_simp
  have h6: "snapshots stream_start = []" by (simp add: stream_start_def)
  have ev: "chat_messages ((snd (begin_turn example_silent_env (trim (input example_panel))
              (example_panel\<lparr>input := [],
                 messages := messages example_panel @ [\<lparr>role = User, content = trim (input example_panel)\<rparr>],
                 isLoading := True\<rparr>)))\<lparr>isLoading := False\<rparr>)
       = [\<lparr>conversation_id = js ''c1'', row_role = User, row_content = js ''What are my rights?''\<rparr>]"
    by code_simp
  show ?thesis
    using empty_response_is_not_saved[OF h1 h2 h3 h4 h5 h6, of None example_panel] h1 h2 h3 h4 h5 h6 ev
    by simp
qed

lemma saveMessage_keeps:
  "toasts (saveMessage e c r m p) = toasts p"
  "messages (saveMessage e c r m p) = messages p"
  "input (saveMessage e c r m p) = input p"
  "isLoading (saveMessage e c r m p) = isLoading p"
  "chat_conversations (saveMessage e c r m p) = chat_conversations p"
  by (simp_all add: saveMessage_def Let_def split: option.splits)

lemma createConversation_keeps:
  "messages (snd (createConversation e m p)) = messages p"
  "input (snd (createConversation e m p)) = input p"
  "isLoading (snd (createConversation e m p)) = isLoading p"
  by (simp_all add: createConversation_def Let_def split: option.splits sum.splits)

lemma begin_turn_keeps:
  "messages (snd (begin_turn e m p)) = messages p"
  "input (snd (begin_turn e m p)) = input p"
  "isLoading (snd (begin_turn e m p)) = isLoading p"
  using createConversation_keeps[of e m p]
  by (auto simp: begin_turn_def saveMessage_keeps split: prod.splits)

lemma respond_result:
  "\<exists>q. respond e c ms p = Some (turn_error e ms, q)
       \<and> toasts q = toasts p \<and> input q = input p \<and> isLoading q = isLoading p
       \<and> chat_conversations q = chat_conversations p
       \<and> (present c \<or> chat_messages q = chat_messages p)
       \<and> (messages p = ms \<longrightarrow> messages q = shown_messages e ms)"
proof (cases "fetch e ms")
  case (Rejected msg)
  then show ?thesis by (simp add: respond_def turn_error_def shown_messages_def)
next
  case (Response ok bo)
  show ?thesis
  proof (cases bo)
    case None
    with Response show ?thesis by (simp add: respond_def turn_error_def shown_messages_def)
  next
    case (Some b)
    obtain st where st: "read_loop (JSON_parse e) (chunks b) stream_start = Some st"
      using read_loop_returns by blast
    show ?thesis
    proof (cases ok)
      case False
      with Response Some show ?thesis by (simp add: respond_def turn_error_def shown_messages_def)
    next
      case True
      with Response Some st show ?thesis
        by (cases "read_error b")
           (auto simp: respond_def turn_error_def shown_messages_def show_stream_def
              finish_turn_def saveMessage_keeps)
    qed
  qed
qed

lemma handleSend_result:
  fixes e :: env and p :: panel
  assumes "trim (input p) \<noteq> []" and "\<not> isLoading p"
  defines "ms \<equiv> messages p @ [\<lparr>role = User, content = trim (input p)\<rparr>]"
  defines "b \<equiv> begin_turn e (trim (input p)) (p\<lparr>input := [], messages := ms, isLoading := True\<rparr>)"
  shows "\<exists>p'. handleSend e p = Some p'
       \<and> toasts p' = toasts (snd b) @ error_toast (turn_error e ms)
       \<and> messages p' = shown_messages e ms \<and> input p' = [] \<and> isLoading p' = False
       \<and> chat_conversations p' = chat_conversations (snd b)
       \<and> (present (fst b) \<or> chat_messages p' = chat_messages (snd b))"
proof -
  obtain c q where cq: "b = (c, q)" by (cases b)
  have mq: "messages q = ms" and iq: "input q = []"
    using begin_turn_keeps[of e "trim (input p)" "p\<lparr>input := [], messages := ms, isLoading := True\<rparr>"] cq
    by (simp_all add: b_def)
  obtain r where r: "respond e c ms q = Some (turn_error e ms, r)"
      "toasts r = toasts q" "input r = input q" "chat_conversations r = chat_conversations q"
      "present c \<or> chat_messages r = chat_messages q" "messages r = shown_messages e ms"
    using respond_result[of e c ms q] mq by blast
  have hs: "handleSend e p = (case respond e c ms q of None \<Rightarrow> None
       | Some (None, p3) \<Rightarrow> Some (p3\<lparr>isLoading := False\<rparr>)
       | Some (Some msg, p3) \<Rightarrow>
           Some (p3\<lparr>console := console p3 @ [ChatError msg],
             toasts := toasts p3 @ [if msg = [] then js ''Failed to get response'' else msg],
             isLoading := False\<rparr>))"
    using assms(1,2) cq by (simp add: handleSend_def Let_def ms_def[symmetric] b_def[symmetric])
  show ?thesis
    using r iq by (cases "turn_error e ms") (auto simp: hs cq error_toast_def)
qed

lemma save_free_facts:
  "turn_error (e\<lparr>insert_message := f\<rparr>) ms = turn_error e ms"
  "shown_messages (e\<lparr>insert_message := f\<rparr>) ms = shown_messages e ms"
  "createConversation (e\<lparr>insert_message := f\<rparr>) m p = createConversation e m p"
  by (simp_all add: turn_error_def shown_messages_def createConversation_def Let_def
      split: option.splits sum.splits response.splits)

lemma begin_turn_save_free:
  "toasts (snd (begin_turn (e\<lparr>insert_message := f\<rparr>) m p)) = toasts (snd (begin_turn e m p))"
  by (simp add: begin_turn_def save_free_facts saveMessage_keeps split: prod.splits)

lemma on_screen_save_free:
  "map_option on_screen (handleSend (e\<lparr>insert_message := f\<rparr>) p) = map_option on_screen (handleSend e p)"
proof (cases "trim (input p) = [] \<or> isLoading p")
  case True
  then show ?thesis by (auto simp: handleSend_def)
next
  case False
  then have a: "trim (input p) \<noteq> []" "\<not> isLoading p" by simp_all
  from handleSend_result[OF a, of e] handleSend_result[OF a, of "e\<lparr>insert_message := f\<rparr>"]
  show ?thesis
    by (auto simp: on_screen_def save_free_facts begin_turn_save_free)
qed

text \<open>
  C7. \<^verbatim>\<open>saveMessage\<close> has no failing outcome: when the store rejects the row, the panel is
  left as it was but for one \<^verbatim>\<open>console.error\<close> entry. And what the user sees at the end of a
  turn (messages with the final assistant snapshot, input, spinner, notifications) is the same
  whatever the store answers to the message inserts.
\<close>

theorem failed_save_is_logged_and_swallowed:
  "(insert_message e \<lparr>conversation_id = c, row_role = r, row_content = m\<rparr> = Some err
      \<longrightarrow> saveMessage e c r m p = p\<lparr>console := console p @ [ErrorSavingMessage err]\<rparr>)
   \<and> map_option on_screen (handleSend (e\<lparr>insert_message := f\<rparr>) q)
       = map_option on_screen (handleSend e q)"
  using on_screen_save_free by (simp add: saveMessage_def)

theorem failed_save_is_logged_and_swallowed_witness:
  "insert_message (example_signed_in\<lparr>insert_message := example_failing_store\<rparr>)
       \<lparr>conversation_id = js ''c1'', row_role = Assistant, row_content = js ''Hi''\<rparr> = Some (js ''unavailable'')
   \<and> saveMessage (example_signed_in\<lparr>insert_message := example_failing_store\<rparr>) (js ''c1'') Assistant (js ''Hi'')
        example_panel
       = example_panel\<lparr>console := console example_panel @ [ErrorSavingMessage (js ''unavailable'')]\<rparr>
   \<and> map_option on_screen (handleSend (example_signed_in\<lparr>insert_message := example_failing_store\<rparr>) example_panel)
       = map_option on_screen (handleSend example_signed_in example_panel)
   \<and> map_option messages (handleSend example_signed_in example_panel)
       = Some [\<lparr>role = User, content = js ''What are my rights?''\<rparr>, \<lparr>role = Assistant, content = js ''Hi''\<rparr>]"
proof -
  have h: "insert_message (example_signed_in\<lparr>insert_message := example_failing_store\<rparr>)
       \<lparr>conversation_id = js ''c1'', row_role = Assistant, row_content = js ''Hi''\<rparr> = Some (js ''unavailable'')"
    by (simp add: example_failing_store_def)
  have ev: "map_option messages (handleSend example_signed_in example_panel)
       = Some [\<lparr>role = User, content = js ''What are my rights?''\<rparr>, \<lparr>role = Assistant, content = js ''Hi''\<rparr>]"
    by code_simp
  show ?thesis
    using failed_save_is_logged_and_swallowed[of "example_signed_in\<lparr>insert_message := example_failing_store\<rparr>"
        "js ''c1''" Assistant "js ''Hi''" "js ''unavailable''" example_panel example_failing_store example_panel]
      failed_save_is_logged_and_swallowed[of example_signed_in
        "js ''c1''" Assistant "js ''Hi''" "js ''unavailable''" example_panel example_failing_store example_panel]
      h ev
    by simp
qed

lemma auth_free_facts:
  "turn_error (e\<lparr>auth_getUser := u\<rparr>) ms = turn_error e ms"
  "shown_messages (e\<lparr>auth_getUser := u\<rparr>) ms = shown_messages e ms"
  by (simp_all add: turn_error_def shown_messages_def split: option.splits response.splits)

lemma messages_auth_free:
  "map_option messages (handleSend (e\<lparr>auth_getUser := u\<rparr>) p) = map_option messages (handleSend e p)"
proof (cases "trim (input p) = [] \<or> isLoading p")
  case True
  then show ?thesis by (auto simp: handleSend_def)
next
  case False
  then have a: "trim (input p) \<noteq> []" "\<not> isLoading p" by simp_all
  from handleSend_result[OF a, of e] handleSend_result[OF a, of "e\<lparr>auth_getUser := u\<rparr>"]
  show ?thesis by (auto simp: auth_free_facts)
qed

text \<open>
  C8, for one send. With nobody signed in and no conversation yet: \<^verbatim>\<open>createConversation\<close>
  returns \<^verbatim>\<open>null\<close> after one sign-in notice; the turn returns, neither table gains a row,
  the notifications gained are that one notice followed by the turn's own error message when
  the transport failed; and the messages shown are those of the same turn with a user
  signed in.
\<close>

theorem signed_out_turn_is_memory_only:
  assumes "auth_getUser e = None" and "\<not> present (currentConvId p)"
    and "trim (input p) \<noteq> []" and "\<not> isLoading p"
  shows "createConversation e m q = (None, q\<lparr>toasts := toasts q @ [sign_in_notice]\<rparr>)
     \<and> (\<exists>p'. handleSend e p = Some p'
            \<and> chat_conversations p' = chat_conversations p
            \<and> chat_messages p' = chat_messages p
            \<and> toasts p' = toasts p @ sign_in_notice #
                 error_toast (turn_error e (messages p @ [\<lparr>role = User, content = trim (input p)\<rparr>])))
     \<and> map_option messages (handleSend e p)
         = map_option messages (handleSend (e\<lparr>auth_getUser := u\<rparr>) p)"
proof -
  have cc: "createConversation e m' q' = (None, q'\<lparr>toasts := toasts q' @ [sign_in_notice]\<rparr>)" for m' q'
    using assms(1) by (simp add: createConversation_def)
  have bt: "begin_turn e m' q' = (None, q'\<lparr>toasts := toasts q' @ [sign_in_notice]\<rparr>)"
    if "currentConvId q' = currentConvId p" for m' q'
    using assms(2) that by (simp add: begin_turn_def cc)
  from handleSend_result[OF assms(3,4), of e]
  show ?thesis
    by (auto simp: cc bt messages_auth_free)
qed

theorem signed_out_turn_is_memory_only_witness:
  "auth_getUser example_env = None \<and> \<not> present (currentConvId example_panel)
   \<and> trim (input example_panel) \<noteq> [] \<and> \<not> isLoading example_panel
   \<and> createConversation example_env (js ''Hello'') example_panel
       = (None, example_panel\<lparr>toasts := toasts example_panel @ [sign_in_notice]\<rparr>)
   \<and> (\<exists>p'. handleSend example_env example_panel = Some p'
          \<and> chat_conversations p' = chat_conversations example_panel
          \<and> chat_messages p' = chat_messages example_panel
          \<and> toasts p' = toasts example_panel @ sign_in_notice #
               error_toast (turn_error example_env
                 (messages example_panel @ [\<lparr>role = User, content = trim (input example_panel)\<rparr>])))
   \<and> map_option messages (handleSend example_env example_panel)
       = map_option messages (handleSend (example_env\<lparr>auth_getUser := Some (js ''u1'')\<rparr>) example_panel)"
proof -
  have h1: "auth_getUser example_env = None" by (simp add: example_env_def)
  have h2: "\<not> present (currentConvId example_panel)" by (simp add: example_panel_def)
  have h3: "trim (input example_panel) \<noteq> []" by code_simp
  have h4: "\<not> isLoading example_panel" by (simp add: example_panel_def)
  show ?thesis
    using signed_out_turn_is_memory_only[OF h1 h2 h3 h4, of "js ''Hello''" example_panel "Some (js ''u1'')"]
      h1 h2 h3 h4
    by blast
qed

text \<open>
  C8 over several sends: two sends in a row with nobody signed in show the sign-in notice
  twice, once per send.
\<close>

theorem signed_out_notice_repeats:
  "map_option toasts example_two_sends = Some [sign_in_notice, sign_in_notice]"
  by code_simp

section \<open>The line reader and the assembled message\<close>

lemma frames_text_simps [simp]:
  "frames_text [] = []"
  "frames_text (l # ls) = l @ LF # frames_text ls"
  "frames_text (ls @ ls') = frames_text ls @ frames_text ls'"
  by (simp_all add: frames_text_def)

lemma accept_all_append: "accept_all (ds @ ds') st = accept_all ds' (accept_all ds st)"
  by (induction ds arbitrary: st) simp_all

lemma accept_buffer: "accept d (st\<lparr>textBuffer := b\<rparr>) = (accept d st)\<lparr>textBuffer := b\<rparr>"
  by (simp add: accept_def)

lemma accept_all_buffer:
  "accept_all ds (st\<lparr>textBuffer := b\<rparr>) = (accept_all ds st)\<lparr>textBuffer := b\<rparr>"
  by (induction ds arbitrary: st) (simp_all add: accept_buffer)

lemma accept_all_message: "assistantMessage (accept_all ds st) = assistantMessage st @ concat ds"
  by (induction ds arbitrary: st) (simp_all add: accept_def)

lemma accept_all_snapshots:
  "snapshots (accept_all ds st)
     = snapshots st @ map (\<lambda>n. assistantMessage st @ concat (take (Suc n) ds)) [0..<length ds]"
proof (induction ds arbitrary: st)
  case Nil
  show ?case by simp
next
  case (Cons d ds)
  have "map (\<lambda>n. assistantMessage st @ concat (take (Suc n) (d # ds))) [0..<Suc (length ds)]
      = (assistantMessage st @ d) # map (\<lambda>n. (assistantMessage st @ d) @ concat (take (Suc n) ds)) [0..<length ds]"
    by (simp add: map_upt_Suc del: upt_Suc)
  with Cons.IH[of "accept d st"] show ?case by (simp add: accept_def del: upt_Suc)
qed

lemma strip_cr_data:
  assumes "startsWith l (js ''data: '')"
  shows "startsWith (strip_cr l) (js ''data: '')"
proof -
  from assms obtain t where l: "l = js ''data: '' @ t"
    by (metis append_take_drop_id startsWith_def)
  show ?thesis
  proof (cases "t = []")
    case True
    then show ?thesis by (simp add: l strip_cr_def endsWith_def startsWith_def js_def CR_def)
  next
    case False
    then have "butlast l = js ''data: '' @ butlast t" by (simp add: l butlast_append)
    then show ?thesis using l by (simp add: strip_cr_def startsWith_def)
  qed
qed

lemma handle_delta_line:
  assumes "delta_line P l d"
  shows "handle_line P (strip_cr l) st = Continue (accept d st)"
proof -
  from assms obtain parsed where p: "P (trim (drop 6 (strip_cr l))) = Some parsed"
      "delta_content parsed = Some (Val (JStr d))" "d \<noteq> []"
      "trim (drop 6 (strip_cr l)) \<noteq> js ''[DONE]''" "startsWith l (js ''data: '')"
    by (auto simp: delta_line_def split: option.splits)
  have "try_frame P (trim (drop 6 (strip_cr l))) st = Some (accept d st)"
    using p(1,2,3) by (simp add: try_frame_def accept_def)
  then show ?thesis
    using p(4) by (simp add: handle_line_data[OF strip_cr_data[OF p(5)]])
qed

lemma process_delta_lines:
  "list_all2 (delta_line P) ls ds \<Longrightarrow>
   process_lines P (st\<lparr>textBuffer := frames_text ls @ rest\<rparr>)
     = process_lines P ((accept_all ds st)\<lparr>textBuffer := rest\<rparr>)"
proof (induction ls ds arbitrary: st rule: list_all2_induct)
  case Nil
  show ?case by simp
next
  case (Cons l ls d ds)
  have nl: "LF \<notin> set l" using Cons.hyps(1) by (simp add: delta_line_def)
  have "process_lines P (st\<lparr>textBuffer := frames_text (l # ls) @ rest\<rparr>)
      = process_lines P (accept d (st\<lparr>textBuffer := frames_text ls @ rest\<rparr>))"
    using process_lines_line[OF nl, where st = "st\<lparr>textBuffer := frames_text (l # ls) @ rest\<rparr>"
        and rest = "frames_text ls @ rest" and P = P]
    by (simp add: handle_delta_line[OF Cons.hyps(1)])
  also have "accept d (st\<lparr>textBuffer := frames_text ls @ rest\<rparr>)
      = (accept d st)\<lparr>textBuffer := frames_text ls @ rest\<rparr>"
    by (rule accept_buffer)
  finally show ?case using Cons.IH[of "accept d st"] by simp
qed

lemma done_line_facts:
  "LF \<notin> set (js ''data: [DONE]'')"
  "strip_cr (js ''data: [DONE]'') = js ''data: [DONE]''"
  "startsWith (js ''data: [DONE]'') (js ''data: '')"
  "trim (drop 6 (js ''data: [DONE]'')) = js ''[DONE]''"
  by code_simp+

lemma process_done_line:
  "process_lines P (st\<lparr>textBuffer := js ''data: [DONE]'' @ LF # rest\<rparr>) = Some (st\<lparr>textBuffer := rest\<rparr>)"
  using process_lines_line[OF done_line_facts(1),
      where st = "st\<lparr>textBuffer := js ''data: [DONE]'' @ LF # rest\<rparr>" and rest = rest and P = P]
  by (simp add: done_line_facts(2) handle_line_data[OF done_line_facts(3)] done_line_facts(4))

lemma split_text:
  assumes "p @ q = frames_text ls" and "list_all (\<lambda>l. LF \<notin> set l) ls"
  shows "\<exists>ls1 ls2 r. ls = ls1 @ ls2 \<and> p = frames_text ls1 @ r \<and> LF \<notin> set r \<and> r @ q = frames_text ls2"
  using assms
proof (induction ls arbitrary: p)
  case Nil
  then show ?case by simp
next
  case (Cons l ls)
  from Cons.prems(1) have eq: "p @ q = l @ LF # frames_text ls" by simp
  from Cons.prems(2) have nl: "LF \<notin> set l" and rest_ok: "list_all (\<lambda>l. LF \<notin> set l) ls" by simp_all
  from eq consider (short) u where "p @ u = l" "q = u @ LF # frames_text ls"
    | (long) u where "p = l @ LF # u" "u @ q = frames_text ls"
  proof -
    from eq obtain u where "(p = l @ u \<and> u @ q = LF # frames_text ls) \<or> (p @ u = l \<and> q = u @ LF # frames_text ls)"
      by (auto simp: append_eq_append_conv2)
    then show thesis
    proof
      assume a: "p = l @ u \<and> u @ q = LF # frames_text ls"
      show thesis
      proof (cases u)
        case Nil
        with a show thesis using short[of "[]"] by simp
      next
        case (Cons x u')
        with a show thesis using long[of u'] by simp
      qed
    next
      assume "p @ u = l \<and> q = u @ LF # frames_text ls"
      then show thesis using short by blast
    qed
  qed
  then show ?case
  proof cases
    case (short u)
    have "LF \<notin> set p" using nl short(1) by auto
    moreover have "p @ q = frames_text (l # ls)" using Cons.prems(1) .
    ultimately show ?thesis
      by (intro exI[of _ "[]"] exI[of _ "l # ls"] exI[of _ p]) simp
  next
    case (long u)
    from Cons.IH[OF long(2) rest_ok] obtain ls1 ls2 r where
      s: "ls = ls1 @ ls2" "u = frames_text ls1 @ r" "LF \<notin> set r" "r @ q = frames_text ls2"
      by blast
    show ?thesis
      using s long(1)
      by (intro exI[of _ "l # ls1"] exI[of _ ls2] exI[of _ r]) simp
  qed
qed

lemma read_loop_empty_chunks:
  "concat cs = [] \<Longrightarrow> LF \<notin> set (textBuffer st) \<Longrightarrow> read_loop P cs st = Some st"
  by (induction cs) (simp_all add: process_lines_no_newline)

lemma delta_lines_no_newline:
  "list_all2 (delta_line P) ls ds \<Longrightarrow> list_all (\<lambda>l. LF \<notin> set l) ls"
  by (induction ls ds rule: list_all2_induct) (simp_all add: delta_line_def)

lemma read_delta_stream:
  assumes "list_all2 (delta_line P) ls ds" and "LF \<notin> set (textBuffer st)"
    and "textBuffer st @ concat cs = frames_text ls @ js ''data: [DONE]'' @ [LF]"
  shows "read_loop P cs st = Some ((accept_all ds st)\<lparr>textBuffer := []\<rparr>)"
  using assms
proof (induction cs arbitrary: st ls ds)
  case Nil
  from Nil.prems(3) have "textBuffer st = frames_text ls @ js ''data: [DONE]'' @ [LF]" by simp
  then have "LF \<in> set (textBuffer st)" by simp
  with Nil.prems(2) show ?case by simp
next
  case (Cons c cs)
  define D where "D = js ''data: [DONE]''"
  have all_ok: "list_all (\<lambda>l. LF \<notin> set l) (ls @ [D])"
    using delta_lines_no_newline[OF Cons.prems(1)] done_line_facts(1) by (simp add: D_def)
  have "(textBuffer st @ c) @ concat cs = frames_text (ls @ [D])"
    using Cons.prems(3) by (simp add: D_def)
  from split_text[OF this all_ok] obtain ls1 ls2 r where
    s: "ls @ [D] = ls1 @ ls2" "textBuffer st @ c = frames_text ls1 @ r" "LF \<notin> set r"
       "r @ concat cs = frames_text ls2"
    by blast
  show ?case
  proof (cases "ls2 = []")
    case True
    with s have e: "ls1 = ls @ [D]" "r = []" "concat cs = []" by simp_all
    have "process_lines P (st\<lparr>textBuffer := textBuffer st @ c\<rparr>)
        = process_lines P (st\<lparr>textBuffer := frames_text ls @ D @ LF # []\<rparr>)"
      by (simp add: s(2) e)
    also have "\<dots> = process_lines P ((accept_all ds st)\<lparr>textBuffer := D @ LF # []\<rparr>)"
      by (rule process_delta_lines[OF Cons.prems(1)])
    also have "\<dots> = Some ((accept_all ds st)\<lparr>textBuffer := []\<rparr>)"
      using process_done_line[where P = P and st = "accept_all ds st" and rest = "[]"] by (simp add: D_def)
    finally show ?thesis
      using read_loop_empty_chunks[OF e(3), where st = "(accept_all ds st)\<lparr>textBuffer := []\<rparr>" and P = P]
      by simp
  next
    case False
    then obtain ls2' x where ls2: "ls2 = ls2' @ [x]" by (cases ls2 rule: rev_cases) auto
    from s(1) have "ls @ [D] = (ls1 @ ls2') @ [x]" by (simp add: ls2)
    then have e: "ls = ls1 @ ls2'" "x = D" by simp_all
    from Cons.prems(1)[unfolded e(1)] obtain ds1 ds2 where
      d: "ds = ds1 @ ds2" "list_all2 (delta_line P) ls1 ds1" "list_all2 (delta_line P) ls2' ds2"
      by (auto simp: list_all2_append1)
    define st1 where "st1 = (accept_all ds1 st)\<lparr>textBuffer := r\<rparr>"
    have "process_lines P (st\<lparr>textBuffer := textBuffer st @ c\<rparr>)
        = process_lines P ((accept_all ds1 st)\<lparr>textBuffer := r\<rparr>)"
      using process_delta_lines[OF d(2), where st = st and rest = r] by (simp add: s(2))
    also have "\<dots> = Some st1"
      using s(3) by (simp add: process_lines_no_newline st1_def)
    finally have step: "process_lines P (st\<lparr>textBuffer := textBuffer st @ c\<rparr>) = Some st1" .
    have "textBuffer st1 @ concat cs = frames_text ls2' @ js ''data: [DONE]'' @ [LF]"
      using s(4) by (simp add: st1_def ls2 e(2) D_def)
    from Cons.IH[OF d(3) _ this] s(3)
    have "read_loop P cs st1 = Some ((accept_all ds2 st1)\<lparr>textBuffer := []\<rparr>)"
      by (simp add: st1_def)
    then show ?thesis
      using step by (simp add: st1_def d(1) accept_all_append accept_all_buffer)
  qed
qed

text \<open>
  C1. A stream that is a run of well-formed data lines, each carrying a non-empty delta,
  followed by \<^verbatim>\<open>data: [DONE]\<close> and a line feed, delivered in any chunks whatever: the loop
  returns, the accumulated assistant message is the concatenation of the deltas in order,
  and the snapshots shown on the way are its successive prefixes, one per delta.
\<close>

theorem assembled_message_is_concatenation:
  assumes "list_all2 (delta_line P) ls deltas"
    and "concat cs = frames_text ls @ js ''data: [DONE]'' @ [LF]"
  shows "\<exists>st. read_loop P cs stream_start = Some st
           \<and> assistantMessage st = concat deltas
           \<and> snapshots st = map (\<lambda>n. concat (take (Suc n) deltas)) [0..<length deltas]"
proof -
  have "read_loop P cs stream_start = Some ((accept_all deltas stream_start)\<lparr>textBuffer := []\<rparr>)"
    using read_delta_stream[OF assms(1), where st = stream_start and cs = cs] assms(2)
    by (simp add: stream_start_def)
  then show ?thesis
    by (simp add: accept_all_message accept_all_snapshots stream_start_def)
qed

theorem assembled_message_is_concatenation_witness:
  "list_all2 (delta_line example_parse) example_lines example_deltas
   \<and> concat example_chunks = frames_text example_lines @ js ''data: [DONE]'' @ [LF]
   \<and> (\<exists>st. read_loop example_parse example_chunks stream_start = Some st
          \<and> assistantMessage st = js ''You have the right to remain silent.''
          \<and> snapshots st = [js ''You have '', js ''You have the right to remain silent.''])"
proof -
  have h1: "list_all2 (delta_line example_parse) example_lines example_deltas" by code_simp
  have h2: "concat example_chunks = frames_text example_lines @ js ''data: [DONE]'' @ [LF]"
    by code_simp
  have c: "concat example_deltas = js ''You have the right to remain silent.''" by code_simp
  have p: "map (\<lambda>n. concat (take (Suc n) example_deltas)) [0..<length example_deltas]
      = [js ''You have '', js ''You have the right to remain silent.'']" by code_simp
  show ?thesis
    using assembled_message_is_concatenation[OF h1 h2] h1 h2 by (simp add: c p)
qed

section \<open>The lines cut, whatever the chunks\<close>


lemma traced_is_real_inner:
  "\<exists>ls st'. process_lines_traced P (tr, st) = Some (tr @ ls, st') \<and> process_lines P st = Some st'"
proof (induction "length (textBuffer st)" arbitrary: st tr rule: less_induct)
  case less
  show ?case
  proof (cases "next_line (textBuffer st)")
    case None
    then show ?thesis
      by (subst process_lines_traced.simps, subst process_lines.simps) simp
  next
    case (Some lr)
    obtain line rest where lr: "lr = (line, rest)" by (cases lr)
    have shorter: "length rest < length (textBuffer st)"
      using Some lr next_line_shorter by simp
    show ?thesis
    proof (cases "handle_line P line (st\<lparr>textBuffer := rest\<rparr>)")
      case (Continue st1)
      then have "textBuffer st1 = rest" by (auto dest: handle_line_buffer)
      with shorter less[of st1 "tr @ [line]"] obtain ls st' where
        "process_lines_traced P (tr @ [line], st1) = Some ((tr @ [line]) @ ls, st')"
        "process_lines P st1 = Some st'" by auto
      then show ?thesis
        by (subst process_lines_traced.simps, subst process_lines.simps)
           (simp add: Some lr Continue)
    next
      case (Break st1)
      then show ?thesis
        by (subst process_lines_traced.simps, subst process_lines.simps) (simp add: Some lr)
    qed
  qed
qed

lemma traced_is_real:
  "\<exists>ls st'. read_loop_traced P cs (tr, st) = Some (tr @ ls, st') \<and> read_loop P cs st = Some st'"
proof (induction cs arbitrary: st tr)
  case Nil
  show ?case by simp
next
  case (Cons c cs)
  obtain ls1 st1 where
    a: "process_lines_traced P (tr, st\<lparr>textBuffer := textBuffer st @ c\<rparr>) = Some (tr @ ls1, st1)"
       "process_lines P (st\<lparr>textBuffer := textBuffer st @ c\<rparr>) = Some st1"
    using traced_is_real_inner by blast
  from Cons.IH[of "tr @ ls1" st1] obtain ls2 st2 where
    b: "read_loop_traced P cs (tr @ ls1, st1) = Some ((tr @ ls1) @ ls2, st2)"
       "read_loop P cs st1 = Some st2" by blast
  show ?case using a b by (intro exI[of _ "ls1 @ ls2"] exI[of _ st2]) simp
qed

lemma traced_line:
  assumes "LF \<notin> set raw" and "textBuffer st = raw @ LF # rest"
  shows "process_lines_traced P (tr, st) =
     (case handle_line P (strip_cr raw) (st\<lparr>textBuffer := rest\<rparr>) of
        Continue st' \<Rightarrow> process_lines_traced P (tr @ [strip_cr raw], st')
      | Break st' \<Rightarrow> Some (tr @ [strip_cr raw], st'))"
  by (subst process_lines_traced.simps) (simp add: assms next_line_append split: step.splits)

lemma traced_no_newline:
  "LF \<notin> set (textBuffer st) \<Longrightarrow> process_lines_traced P (tr, st) = Some (tr, st)"
  by (subst process_lines_traced.simps) (simp add: next_line_None_iff[THEN iffD2])

lemma try_frame_moves_buffer:
  "try_frame P j (st\<lparr>textBuffer := b\<rparr>) = map_option (\<lambda>s. s\<lparr>textBuffer := b\<rparr>) (try_frame P j st)"
  by (simp add: try_frame_def split: option.splits jsval.splits)

lemma handle_line_moves_buffer:
  "handle_line P l st = Continue s \<Longrightarrow>
   handle_line P l (st\<lparr>textBuffer := b\<rparr>) = Continue (s\<lparr>textBuffer := b\<rparr>)"
  by (auto simp: handle_line_def Let_def try_frame_moves_buffer split: if_splits option.splits)

lemma try_frame_throws_anywhere:
  "try_frame P j st = None \<Longrightarrow> try_frame P j st' = None"
  by (auto simp: try_frame_def split: option.splits jsval.splits if_splits)

lemma stays_continues:
  assumes "\<not> leaves_loop P l"
  shows "\<exists>s. handle_line P l st = Continue s"
proof (cases "handle_line P l st")
  case (Continue s)
  then show ?thesis by blast
next
  case (Break s)
  then have "\<exists>s'. handle_line P l stream_start = Break s'"
    by (auto simp: handle_line_def Let_def split: if_splits option.splits
        dest: try_frame_throws_anywhere[where st' = stream_start])
  with assms show ?thesis by (auto simp: leaves_loop_def)
qed

lemma pass_lines_moves_buffer:
  "list_all (stays P) ls \<Longrightarrow> pass_lines P ls (st\<lparr>textBuffer := b\<rparr>) = (pass_lines P ls st)\<lparr>textBuffer := b\<rparr>"
proof (induction ls arbitrary: st)
  case Nil
  show ?case by simp
next
  case (Cons l ls)
  from Cons.prems obtain s where s: "handle_line P (strip_cr l) st = Continue s"
    using stays_continues[of P "strip_cr l" st] by (auto simp: stays_def)
  from Cons.prems Cons.IH[of s] show ?case
    by (simp add: s handle_line_moves_buffer[OF s])
qed

lemma pass_lines_append:
  "list_all (stays P) ls \<Longrightarrow> pass_lines P (ls @ ls') st = pass_lines P ls' (pass_lines P ls st)"
proof (induction ls arbitrary: st)
  case Nil
  show ?case by simp
next
  case (Cons l ls)
  from Cons.prems obtain s where s: "handle_line P (strip_cr l) st = Continue s"
    using stays_continues[of P "strip_cr l" st] by (auto simp: stays_def)
  from Cons.prems Cons.IH[of s] show ?case by (simp add: s)
qed

lemma traced_staying_lines:
  "list_all (stays P) ls \<Longrightarrow>
   process_lines_traced P (tr, st\<lparr>textBuffer := frames_text ls @ rest\<rparr>)
     = process_lines_traced P (tr @ map strip_cr ls, (pass_lines P ls st)\<lparr>textBuffer := rest\<rparr>)"
proof (induction ls arbitrary: st tr)
  case Nil
  show ?case by simp
next
  case (Cons l ls)
  from Cons.prems have nl: "LF \<notin> set l" by (simp add: stays_def)
  from Cons.prems obtain s where s: "handle_line P (strip_cr l) st = Continue s"
    using stays_continues[of P "strip_cr l" st] by (auto simp: stays_def)
  have "process_lines_traced P (tr, st\<lparr>textBuffer := frames_text (l # ls) @ rest\<rparr>)
      = process_lines_traced P (tr @ [strip_cr l], s\<lparr>textBuffer := frames_text ls @ rest\<rparr>)"
    using traced_line[OF nl, where st = "st\<lparr>textBuffer := frames_text (l # ls) @ rest\<rparr>"
        and rest = "frames_text ls @ rest" and P = P and tr = tr]
    by (simp add: handle_line_moves_buffer[OF s])
  also have "\<dots> = process_lines_traced P ((tr @ [strip_cr l]) @ map strip_cr ls,
        (pass_lines P ls s)\<lparr>textBuffer := rest\<rparr>)"
    using Cons.prems by (intro Cons.IH) simp
  finally show ?case by (simp add: s)
qed

lemma traced_closing_line:
  assumes "closes d"
  shows "process_lines_traced P (tr, st\<lparr>textBuffer := d @ LF # rest\<rparr>)
     = Some (tr @ [strip_cr d], st\<lparr>textBuffer := rest\<rparr>)"
proof -
  from assms have nl: "LF \<notin> set d" and sw: "startsWith (strip_cr d) (js ''data: '')"
    and dn: "trim (drop 6 (strip_cr d)) = js ''[DONE]''"
    by (simp_all add: closes_def sentinel_line_def)
  show ?thesis
    using traced_line[OF nl, where st = "st\<lparr>textBuffer := d @ LF # rest\<rparr>" and rest = rest
        and P = P and tr = tr]
    by (simp add: handle_line_data[OF sw] dn)
qed

lemma split_text_rest:
  assumes "p @ q = frames_text ls @ r" and "list_all (\<lambda>l. LF \<notin> set l) ls" and "LF \<notin> set r"
  shows "\<exists>ls1 ls2 r'. ls = ls1 @ ls2 \<and> p = frames_text ls1 @ r' \<and> LF \<notin> set r'
            \<and> r' @ q = frames_text ls2 @ r"
  using assms(1,2)
proof (induction ls arbitrary: p)
  case Nil
  then have "p @ q = r" by simp
  with assms(3) have "LF \<notin> set p" by auto
  with Nil show ?case by simp
next
  case (Cons l ls)
  from Cons.prems(1) have eq: "p @ q = l @ LF # frames_text ls @ r" by simp
  from Cons.prems(2) have nl: "LF \<notin> set l" and rest_ok: "list_all (\<lambda>l. LF \<notin> set l) ls" by simp_all
  from eq consider (short) u where "p @ u = l" "q = u @ LF # frames_text ls @ r"
    | (long) u where "p = l @ LF # u" "u @ q = frames_text ls @ r"
  proof -
    from eq obtain u where "(p = l @ u \<and> u @ q = LF # frames_text ls @ r)
        \<or> (p @ u = l \<and> q = u @ LF # frames_text ls @ r)"
      by (auto simp: append_eq_append_conv2)
    then show thesis
    proof
      assume a: "p = l @ u \<and> u @ q = LF # frames_text ls @ r"
      show thesis
      proof (cases u)
        case Nil
        with a show thesis using short[of "[]"] by simp
      next
        case (Cons x u')
        with a show thesis using long[of u'] by simp
      qed
    next
      assume "p @ u = l \<and> q = u @ LF # frames_text ls @ r"
      then show thesis using short by blast
    qed
  qed
  then show ?case
  proof cases
    case (short u)
    have "LF \<notin> set p" using nl short(1) by auto
    moreover have "p @ q = frames_text (l # ls) @ r" using Cons.prems(1) .
    ultimately show ?thesis
      by (intro exI[of _ "[]"] exI[of _ "l # ls"] exI[of _ p]) simp
  next
    case (long u)
    from Cons.IH[OF long(2) rest_ok] obtain ls1 ls2 r' where
      s: "ls = ls1 @ ls2" "u = frames_text ls1 @ r'" "LF \<notin> set r'" "r' @ q = frames_text ls2 @ r"
      by blast
    show ?thesis
      using s long(1)
      by (intro exI[of _ "l # ls1"] exI[of _ ls2] exI[of _ r']) simp
  qed
qed

lemma frames_text_has_newline: "ls \<noteq> [] \<Longrightarrow> LF \<in> set (frames_text ls)"
  by (cases ls) simp_all

lemma traced_stream:
  assumes "list_all (stays P) ls" and "list_all closes fin" and "length fin \<le> 1"
    and "LF \<notin> set r" and "LF \<notin> set (textBuffer st)"
    and "textBuffer st @ concat cs = frames_text (ls @ fin) @ r"
  shows "read_loop_traced P cs (tr, st)
     = Some (tr @ map strip_cr (ls @ fin), (pass_lines P ls st)\<lparr>textBuffer := r\<rparr>)"
  using assms(1,2,3,5,6)
proof (induction cs arbitrary: st tr ls fin)
  case Nil
  from Nil.prems(5) have tb: "textBuffer st = frames_text (ls @ fin) @ r" by simp
  have "ls @ fin = []"
  proof (rule ccontr)
    assume "ls @ fin \<noteq> []"
    from frames_text_has_newline[OF this] tb Nil.prems(4) show False by simp
  qed
  with tb show ?case by simp
next
  case (Cons c cs)
  have all_ok: "list_all (\<lambda>l. LF \<notin> set l) (ls @ fin)"
    using Cons.prems(1,2) by (auto simp: list_all_iff stays_def closes_def)
  have "(textBuffer st @ c) @ concat cs = frames_text (ls @ fin) @ r"
    using Cons.prems(5) by simp
  from split_text_rest[OF this all_ok assms(4)] obtain ls1 ls2 r' where
    s: "ls @ fin = ls1 @ ls2" "textBuffer st @ c = frames_text ls1 @ r'" "LF \<notin> set r'"
       "r' @ concat cs = frames_text ls2 @ r"
    by blast
  consider (inside) ls2' where "ls = ls1 @ ls2'" "ls2 = ls2' @ fin"
    | (closed) d where "fin = [d]" "ls1 = ls @ [d]" "ls2 = []"
  proof (cases fin)
    case Nil
    with s(1) show thesis using inside[of ls2] by simp
  next
    case (Cons d fin')
    with Cons.prems(3) have fin: "fin = [d]" by simp
    show thesis
    proof (cases ls2 rule: rev_cases)
      case Nil
      with s(1) fin show thesis using closed[of d] by simp
    next
      case (snoc ls2' x)
      with s(1) fin have "ls @ [d] = (ls1 @ ls2') @ [x]" by simp
      then have "ls = ls1 @ ls2'" "x = d" by simp_all
      with snoc fin show thesis using inside[of ls2'] by simp
    qed
  qed
  then show ?case
  proof cases
    case (inside ls2')
    have st1: "list_all (stays P) ls1" and st2: "list_all (stays P) ls2'"
      using Cons.prems(1) inside(1) by simp_all
    define st1 where "st1 = (pass_lines P ls1 st)\<lparr>textBuffer := r'\<rparr>"
    have "process_lines_traced P (tr, st\<lparr>textBuffer := textBuffer st @ c\<rparr>)
        = process_lines_traced P (tr @ map strip_cr ls1, st1)"
      using traced_staying_lines[OF st1, where st = st and rest = r' and tr = tr]
      by (simp add: s(2) st1_def)
    also have "\<dots> = Some (tr @ map strip_cr ls1, st1)"
      using s(3) by (simp add: traced_no_newline st1_def)
    finally have step: "process_lines_traced P (tr, st\<lparr>textBuffer := textBuffer st @ c\<rparr>)
        = Some (tr @ map strip_cr ls1, st1)" .
    have "textBuffer st1 @ concat cs = frames_text (ls2' @ fin) @ r"
      using s(4) inside(2) by (simp add: st1_def)
    from Cons.IH[OF st2 Cons.prems(2,3) _ this, of "tr @ map strip_cr ls1"] s(3)
    have "read_loop_traced P cs (tr @ map strip_cr ls1, st1)
        = Some ((tr @ map strip_cr ls1) @ map strip_cr (ls2' @ fin),
                (pass_lines P ls2' st1)\<lparr>textBuffer := r\<rparr>)"
      by (simp add: st1_def)
    then show ?thesis
      using step
      by (simp add: inside(1) st1_def pass_lines_append[OF st1] pass_lines_moves_buffer[OF st2])
  next
    case (closed d)
    have cl: "closes d" using Cons.prems(2) closed(1) by simp
    define st1 where "st1 = (pass_lines P ls st)\<lparr>textBuffer := r'\<rparr>"
    have "process_lines_traced P (tr, st\<lparr>textBuffer := textBuffer st @ c\<rparr>)
        = process_lines_traced P (tr @ map strip_cr ls,
            (pass_lines P ls st)\<lparr>textBuffer := d @ LF # r'\<rparr>)"
      using traced_staying_lines[OF Cons.prems(1), where st = st and rest = "d @ LF # r'" and tr = tr]
      by (simp add: s(2) closed(2))
    also have "\<dots> = Some ((tr @ map strip_cr ls) @ [strip_cr d], st1)"
      using traced_closing_line[OF cl, where st = "pass_lines P ls st" and rest = r'
          and tr = "tr @ map strip_cr ls" and P = P]
      by (simp add: st1_def)
    finally have step: "process_lines_traced P (tr, st\<lparr>textBuffer := textBuffer st @ c\<rparr>)
        = Some ((tr @ map strip_cr ls) @ [strip_cr d], st1)" .
    have "textBuffer st1 @ concat cs = frames_text ([] @ []) @ r"
      using s(4) closed(3) by (simp add: st1_def)
    from Cons.IH[OF _ _ _ _ this, of "(tr @ map strip_cr ls) @ [strip_cr d]"] s(3)
    have "read_loop_traced P cs ((tr @ map strip_cr ls) @ [strip_cr d], st1)
        = Some ((tr @ map strip_cr ls) @ [strip_cr d], st1\<lparr>textBuffer := r\<rparr>)"
      by (simp add: st1_def)
    then show ?thesis
      using step by (simp add: closed(1) st1_def)
  qed
qed

lemma strip_cr_one: "strip_cr (l @ [CR]) = l"
  by (simp add: strip_cr_def endsWith_def)

lemma strip_cr_none: "\<not> endsWith l [CR] \<Longrightarrow> strip_cr l = l"
  by (simp add: strip_cr_def)

text \<open>
  C2, for texts whose lines stay in the loop. A text made of lines on which the body goes on
  to the next iteration, each closed by a line feed, then at most one sentinel line, then a
  remainder with no line feed: however the text is cut into chunks, the loop cuts exactly
  those lines, in order, each without one trailing carriage return (one only: a second one
  stays), and ends in one and the same state, with the remainder left in the buffer, where
  it is dropped when the reader reports \<^verbatim>\<open>done\<close>.
\<close>

theorem lines_cut_ignore_chunking:
  assumes "concat cs = frames_text (ls @ fin) @ r" and "concat cs' = concat cs"
    and "list_all (stays P) ls" and "list_all closes fin" and "length fin \<le> 1"
    and "LF \<notin> set r"
  shows "read_loop_traced P cs ([], stream_start)
       = Some (map strip_cr (ls @ fin), (pass_lines P ls stream_start)\<lparr>textBuffer := r\<rparr>)
     \<and> read_loop_traced P cs' ([], stream_start) = read_loop_traced P cs ([], stream_start)
     \<and> read_loop P cs stream_start = Some ((pass_lines P ls stream_start)\<lparr>textBuffer := r\<rparr>)
     \<and> strip_cr (l @ [CR]) = l \<and> (\<not> endsWith l [CR] \<longrightarrow> strip_cr l = l)"
proof -
  have empty: "LF \<notin> set (textBuffer stream_start)" by (simp add: stream_start_def)
  have t: "read_loop_traced P xs ([], stream_start)
       = Some (map strip_cr (ls @ fin), (pass_lines P ls stream_start)\<lparr>textBuffer := r\<rparr>)"
    if "concat xs = concat cs" for xs
    using traced_stream[OF assms(3,4,5,6) empty, where cs = xs and tr = "[]"] that assms(1)
    by (simp add: stream_start_def)
  from traced_is_real[of P cs "[]" stream_start] t[of cs]
  have "read_loop P cs stream_start = Some ((pass_lines P ls stream_start)\<lparr>textBuffer := r\<rparr>)"
    by auto
  then show ?thesis
    using t[of cs] t[of cs'] assms(2) by (simp add: strip_cr_one strip_cr_none)
qed

theorem lines_cut_ignore_chunking_witness:
  "concat example_reader_chunks = frames_text (example_reader_lines @ [js ''data: [DONE]'']) @ js ''tail''
   \<and> concat [example_reader_text] = concat example_reader_chunks
   \<and> list_all (stays example_parse) example_reader_lines
   \<and> list_all closes [js ''data: [DONE]'']
   \<and> length [js ''data: [DONE]''] \<le> 1
   \<and> LF \<notin> set (js ''tail'')
   \<and> map_option fst (read_loop_traced example_parse example_reader_chunks ([], stream_start))
       = Some [js '': ping'', js ''data: '' @ frame_text (js ''Hi''), js ''event: x'', js ''data: [DONE]'']
   \<and> read_loop_traced example_parse [example_reader_text] ([], stream_start)
       = read_loop_traced example_parse example_reader_chunks ([], stream_start)"
proof -
  have h1: "concat example_reader_chunks
      = frames_text (example_reader_lines @ [js ''data: [DONE]'']) @ js ''tail''" by code_simp
  have h2: "concat [example_reader_text] = concat example_reader_chunks" by code_simp
  have h3: "list_all (stays example_parse) example_reader_lines" by code_simp
  have h4: "list_all closes [js ''data: [DONE]'']" by code_simp
  have h5: "length [js ''data: [DONE]''] \<le> 1" by simp
  have h6: "LF \<notin> set (js ''tail'')" by code_simp
  have m: "map strip_cr (example_reader_lines @ [js ''data: [DONE]''])
      = [js '': ping'', js ''data: '' @ frame_text (js ''Hi''), js ''event: x'', js ''data: [DONE]'']"
    by code_simp
  note reader = lines_cut_ignore_chunking[where P = example_parse and cs = example_reader_chunks
      and cs' = "[example_reader_text]", OF h1 h2 h3 h4 h5 h6]
  have a0: "read_loop_traced example_parse example_reader_chunks ([], stream_start)
      = Some (map strip_cr (example_reader_lines @ [js ''data: [DONE]'']),
              (pass_lines example_parse example_reader_lines stream_start)\<lparr>textBuffer := js ''tail''\<rparr>)"
    using reader by blast
  have a: "map_option fst (read_loop_traced example_parse example_reader_chunks ([], stream_start))
      = Some [js '': ping'', js ''data: '' @ frame_text (js ''Hi''), js ''event: x'', js ''data: [DONE]'']"
    unfolding a0 m by simp
  have b: "read_loop_traced example_parse [example_reader_text] ([], stream_start)
      = read_loop_traced example_parse example_reader_chunks ([], stream_start)"
    using reader by blast
  show ?thesis using h1 h2 h3 h4 h5 h6 a b by blast
qed

text \<open>
  C2 for every text: a line that fails to parse is put back and cut again at the next chunk,
  so the same text gives one line when it comes in one chunk and the same line twice when it
  comes in two.
\<close>

theorem lines_cut_depend_on_chunking:
  "concat [example_stuck_text] = concat [js ''data: {oops'' @ [LF], js ''x'' @ [LF]]
   \<and> map_option fst (read_loop_traced example_parse [example_stuck_text] ([], stream_start))
       = Some [js ''data: {oops'']
   \<and> map_option fst (read_loop_traced example_parse [js ''data: {oops'' @ [LF], js ''x'' @ [LF]]
         ([], stream_start))
       = Some [js ''data: {oops'', js ''data: {oops'']"
  by code_simp

end
